theory Spec2Isabelle
  imports Complex_Main "HOL-Library.Word" "HOL-Library.Multiset"
begin

section \<open>JavaScript values used by the retrieval core\<close>

text \<open>
  A JavaScript string is a sequence of UTF-16 code units; \<open>length\<close>, \<open>slice\<close>,
  \<open>lastIndexOf\<close> and \<open>trim\<close> all count code units. String literals of the source are
  written \<open>js ''...''\<close>.
\<close>

type_synonym code_unit = "16 word"
type_synonym jsstring = "code_unit list"

definition js :: "string \<Rightarrow> jsstring" where
  "js s = map (\<lambda>c. of_nat (of_char c)) s"

text \<open>
  A JavaScript number is an IEEE 754 double: a finite value, one of the two infinities,
  or \<open>NaN\<close>. A finite double is modelled by the real number it stands for, and every
  arithmetic operation rounds its exact result to the nearest double, ties to even
  (\<open>to_double\<close>); results too large become an infinity and results too small become
  subnormal or zero. The two zeros are one value, \<open>Finite 0\<close>: the sign of a zero is
  visible only to a division by it, and the only zero divisor met in this program is
  \<open>+0\<close> (a product of square roots).
\<close>

datatype jsnum = Finite real | PosInfinity | NegInfinity | NaN

text \<open>
  The exponent of the binade of \<open>x\<close>, never below that of the subnormal numbers, and
  the distance between neighbouring doubles in that binade (53 significant bits).
\<close>

definition binade :: "real \<Rightarrow> int" where
  "binade x = max \<lfloor>log 2 \<bar>x\<bar>\<rfloor> (- 1022)"

definition ulp :: "real \<Rightarrow> real" where
  "ulp x = 2 powi (binade x - 52)"

text \<open>Rounding to the nearest integer, a tie going to the even one.\<close>

definition round_half_even :: "real \<Rightarrow> int" where
  "round_half_even q =
     (let n = \<lfloor>q\<rfloor>; r = q - of_int n
      in if r < 1 / 2 then n else if 1 / 2 < r then n + 1 else if even n then n else n + 1)"

text \<open>
  The multiple of \<open>ulp x\<close> nearest to \<open>x\<close>, and the double that an operation with the
  exact result \<open>x\<close> returns: a rounded magnitude of \<open>2 ^ 1024\<close> or more overflows.
\<close>

definition nearest :: "real \<Rightarrow> real" where
  "nearest x = of_int (round_half_even (x / ulp x)) * ulp x"

definition to_double :: "real \<Rightarrow> jsnum" where
  "to_double x =
     (if 2 ^ 1024 \<le> \<bar>nearest x\<bar> then (if 0 < x then PosInfinity else NegInfinity)
      else Finite (nearest x))"

text \<open>\<open>x + y\<close>\<close>

fun js_add :: "jsnum \<Rightarrow> jsnum \<Rightarrow> jsnum" where
  "js_add (Finite x) (Finite y) = to_double (x + y)"
| "js_add NaN _ = NaN"
| "js_add _ NaN = NaN"
| "js_add PosInfinity NegInfinity = NaN"
| "js_add NegInfinity PosInfinity = NaN"
| "js_add PosInfinity _ = PosInfinity"
| "js_add NegInfinity _ = NegInfinity"
| "js_add (Finite x) PosInfinity = PosInfinity"
| "js_add (Finite x) NegInfinity = NegInfinity"

text \<open>\<open>x - y\<close>\<close>

fun js_sub :: "jsnum \<Rightarrow> jsnum \<Rightarrow> jsnum" where
  "js_sub (Finite x) (Finite y) = to_double (x - y)"
| "js_sub NaN _ = NaN"
| "js_sub _ NaN = NaN"
| "js_sub PosInfinity PosInfinity = NaN"
| "js_sub NegInfinity NegInfinity = NaN"
| "js_sub PosInfinity _ = PosInfinity"
| "js_sub NegInfinity _ = NegInfinity"
| "js_sub (Finite x) PosInfinity = NegInfinity"
| "js_sub (Finite x) NegInfinity = PosInfinity"

text \<open>\<open>x * y\<close>: an infinity times zero is \<open>NaN\<close>.\<close>

fun js_mul :: "jsnum \<Rightarrow> jsnum \<Rightarrow> jsnum" where
  "js_mul (Finite x) (Finite y) = to_double (x * y)"
| "js_mul NaN _ = NaN"
| "js_mul _ NaN = NaN"
| "js_mul PosInfinity (Finite y) =
     (if y = 0 then NaN else if 0 < y then PosInfinity else NegInfinity)"
| "js_mul NegInfinity (Finite y) =
     (if y = 0 then NaN else if 0 < y then NegInfinity else PosInfinity)"
| "js_mul (Finite x) PosInfinity =
     (if x = 0 then NaN else if 0 < x then PosInfinity else NegInfinity)"
| "js_mul (Finite x) NegInfinity =
     (if x = 0 then NaN else if 0 < x then NegInfinity else PosInfinity)"
| "js_mul PosInfinity PosInfinity = PosInfinity"
| "js_mul PosInfinity NegInfinity = NegInfinity"
| "js_mul NegInfinity PosInfinity = NegInfinity"
| "js_mul NegInfinity NegInfinity = PosInfinity"

text \<open>
  \<open>x / y\<close>, a zero divisor being \<open>+0\<close>: zero by zero is \<open>NaN\<close>, anything else by zero is
  an infinity, and so is an infinity by a finite number; an infinity by an infinity is
  \<open>NaN\<close>.
\<close>

fun js_div :: "jsnum \<Rightarrow> jsnum \<Rightarrow> jsnum" where
  "js_div (Finite x) (Finite y) =
     (if y = 0 then (if x = 0 then NaN else if 0 < x then PosInfinity else NegInfinity)
      else to_double (x / y))"
| "js_div NaN _ = NaN"
| "js_div _ NaN = NaN"
| "js_div (Finite x) PosInfinity = Finite 0"
| "js_div (Finite x) NegInfinity = Finite 0"
| "js_div PosInfinity (Finite y) = (if y < 0 then NegInfinity else PosInfinity)"
| "js_div NegInfinity (Finite y) = (if y < 0 then PosInfinity else NegInfinity)"
| "js_div PosInfinity PosInfinity = NaN"
| "js_div PosInfinity NegInfinity = NaN"
| "js_div NegInfinity PosInfinity = NaN"
| "js_div NegInfinity NegInfinity = NaN"

text \<open>
  \<open>Math.sqrt(x)\<close>, correctly rounded (the processor's square root, which the engine
  uses): \<open>NaN\<close> on a negative number.
\<close>

fun js_sqrt :: "jsnum \<Rightarrow> jsnum" where
  "js_sqrt (Finite x) = (if x < 0 then NaN else to_double (sqrt x))"
| "js_sqrt PosInfinity = PosInfinity"
| "js_sqrt NegInfinity = NaN"
| "js_sqrt NaN = NaN"

text \<open>\<open>x > y\<close>: every comparison with \<open>NaN\<close> is false.\<close>

fun js_gt :: "jsnum \<Rightarrow> jsnum \<Rightarrow> bool" where
  "js_gt (Finite x) (Finite y) = (y < x)"
| "js_gt NaN _ = False"
| "js_gt _ NaN = False"
| "js_gt PosInfinity PosInfinity = False"
| "js_gt PosInfinity _ = True"
| "js_gt NegInfinity _ = False"
| "js_gt (Finite x) PosInfinity = False"
| "js_gt (Finite x) NegInfinity = True"

text \<open>\<open>x >= y\<close>.\<close>

definition js_ge :: "jsnum \<Rightarrow> jsnum \<Rightarrow> bool" where
  "js_ge x y \<longleftrightarrow> x \<noteq> NaN \<and> y \<noteq> NaN \<and> (x = y \<or> js_gt x y)"

subsection \<open>\<open>Array.prototype.slice\<close>, \<open>String.prototype.slice\<close>\<close>

text \<open>A negative index counts from the end; both indices are clamped to the length.\<close>

definition js_slice :: "'a list \<Rightarrow> int \<Rightarrow> int \<Rightarrow> 'a list" where
  "js_slice xs start end =
     (let len = int (length xs);
          from = (if start < 0 then max (len + start) 0 else min start len);
          to = (if end < 0 then max (len + end) 0 else min end len)
      in take (nat (to - from)) (drop (nat from) xs))"

subsection \<open>\<open>Array.prototype.sort\<close> with a comparison function\<close>

text \<open>
  The comparison function's result \<open>v\<close> is used through its sign, and \<open>NaN\<close> counts as
  \<open>+0\<close> (ECMAScript, CompareArrayElements).
\<close>

fun cf_lt :: "jsnum \<Rightarrow> bool" where
  "cf_lt (Finite v) = (v < 0)"
| "cf_lt NegInfinity = True"
| "cf_lt _ = False"

fun cf_gt :: "jsnum \<Rightarrow> bool" where
  "cf_gt (Finite v) = (0 < v)"
| "cf_gt PosInfinity = True"
| "cf_gt _ = False"

definition cf_eq :: "jsnum \<Rightarrow> bool" where
  "cf_eq v \<longleftrightarrow> \<not> cf_lt v \<and> \<not> cf_gt v"

text \<open>
  ECMAScript's "consistent comparison function for a set of values": never \<open>NaN\<close>,
  reflexive, symmetric on ties, transitive on ties, on \<open><\<close> and on \<open>>\<close>.
\<close>

definition consistent_comparefn :: "('a \<Rightarrow> 'a \<Rightarrow> jsnum) \<Rightarrow> 'a list \<Rightarrow> bool" where
  "consistent_comparefn comparefn xs \<longleftrightarrow>
     (\<forall>a\<in>set xs. \<forall>b\<in>set xs. comparefn a b \<noteq> NaN) \<and>
     (\<forall>a\<in>set xs. cf_eq (comparefn a a)) \<and>
     (\<forall>a\<in>set xs. \<forall>b\<in>set xs. cf_eq (comparefn a b) \<longrightarrow> cf_eq (comparefn b a)) \<and>
     (\<forall>a\<in>set xs. \<forall>b\<in>set xs. \<forall>c\<in>set xs.
        cf_eq (comparefn a b) \<and> cf_eq (comparefn b c) \<longrightarrow> cf_eq (comparefn a c)) \<and>
     (\<forall>a\<in>set xs. \<forall>b\<in>set xs. \<forall>c\<in>set xs.
        cf_lt (comparefn a b) \<and> cf_lt (comparefn b c) \<longrightarrow> cf_lt (comparefn a c)) \<and>
     (\<forall>a\<in>set xs. \<forall>b\<in>set xs. \<forall>c\<in>set xs.
        cf_gt (comparefn a b) \<and> cf_gt (comparefn b c) \<longrightarrow> cf_gt (comparefn a c))"

text \<open>The stable sort: each element goes before the first one it is strictly below.\<close>

fun sort_insert :: "('a \<Rightarrow> 'a \<Rightarrow> jsnum) \<Rightarrow> 'a \<Rightarrow> 'a list \<Rightarrow> 'a list" where
  "sort_insert comparefn x [] = [x]"
| "sort_insert comparefn x (y # ys) =
     (if cf_lt (comparefn x y) then x # y # ys else y # sort_insert comparefn x ys)"

definition stable_sort :: "('a \<Rightarrow> 'a \<Rightarrow> jsnum) \<Rightarrow> 'a list \<Rightarrow> 'a list" where
  "stable_sort comparefn xs = foldl (\<lambda>sorted x. sort_insert comparefn x sorted) [] xs"

text \<open>
  \<open>xs.sort(comparefn)\<close>. With a consistent comparison function the result is the stable
  sort. Otherwise the order is implementation-defined: it is the rearrangement the engine
  makes, and the engine is a parameter of the model (an engine that would not return a
  rearrangement of the elements is ignored). V8, for one, looks for a run at the start of
  the array; where every comparison gives \<open>NaN\<close> the whole array is one run and stays as
  it is.
\<close>

type_synonym 'a sort_engine = "('a \<Rightarrow> 'a \<Rightarrow> jsnum) \<Rightarrow> 'a list \<Rightarrow> 'a list"

definition js_sort :: "'a sort_engine \<Rightarrow> ('a \<Rightarrow> 'a \<Rightarrow> jsnum) \<Rightarrow> 'a list \<Rightarrow> 'a list" where
  "js_sort engine comparefn xs =
     (if consistent_comparefn comparefn xs then stable_sort comparefn xs
      else if mset (engine comparefn xs) = mset xs then engine comparefn xs
      else xs)"

subsection \<open>Thrown values and promises\<close>

text \<open>
  What a \<open>catch\<close> clause receives is an \<open>Error\<close> object with its message, or some other
  value. An \<open>async\<close> function's outcome is a rejection (\<open>Inl\<close>) or a value (\<open>Inr\<close>).
\<close>

datatype thrown = Error jsstring | NonError

type_synonym 'a promise = "thrown + 'a"

text \<open>\<open>error instanceof Error ? error.message : fallback\<close>\<close>

fun message_or :: "jsstring \<Rightarrow> thrown \<Rightarrow> jsstring" where
  "message_or fallback (Error message) = message"
| "message_or fallback NonError = fallback"

section \<open>Vector store (src/lib/supabase-vector-store.ts)\<close>

subsection \<open>cosineSimilarity\<close>

fun cosine_loop ::
  "jsnum list \<Rightarrow> jsnum list \<Rightarrow> jsnum \<times> jsnum \<times> jsnum \<Rightarrow> jsnum \<times> jsnum \<times> jsnum" where
  "cosine_loop (x # xs) (y # ys) (dotProduct, normA, normB) =
     cosine_loop xs ys
       (js_add dotProduct (js_mul x y), js_add normA (js_mul x x), js_add normB (js_mul y y))"
| "cosine_loop _ _ acc = acc"

definition cosineSimilarity :: "jsnum list \<Rightarrow> jsnum list \<Rightarrow> jsnum" where
  "cosineSimilarity a b =
     (if length a \<noteq> length b then Finite 0
      else (case cosine_loop a b (Finite 0, Finite 0, Finite 0) of
              (dotProduct, normA, normB) \<Rightarrow>
                js_div dotProduct (js_mul (js_sqrt normA) (js_sqrt normB))))"

subsection \<open>Stored data\<close>

text \<open>
  \<open>DocumentChunk\<close> of the source; \<open>ChunkData\<close> is \<open>Omit<DocumentChunk, 'id'>\<close>. A \<open>Date\<close>
  is its time value (milliseconds), and so is the \<open>created_at\<close> column.
\<close>

record metadata =
  fileName :: jsstring
  chunkIndex :: int
  timestamp :: int

record ChunkData =
  chunk_text :: jsstring
  embedding :: "jsnum list"
  metadata :: metadata

record DocumentChunk = ChunkData +
  chunk_id :: jsstring

record SupabaseRow =
  row_id :: jsstring
  row_text :: jsstring
  row_embedding :: "jsnum list"
  file_name :: jsstring
  chunk_index :: int
  created_at :: int
  user_id :: jsstring

subsection \<open>The backing store\<close>

text \<open>
  Modelled from the spec: the storage boundary (section 6) and the store's read and write
  failures (section 7). The Supabase client and the database are external to the
  repository. The table \<open>document_chunks\<close> is a list of rows; a query answers with
  \<open>{ data, error }\<close>; whether reads, writes and the remote procedure fail is part of the
  state.
\<close>

datatype rpc_status = RpcAvailable | RpcError jsstring | RpcThrows thrown

record backend =
  document_chunks :: "SupabaseRow list"
  read_error :: "jsstring option"
  write_error :: "jsstring option"
  rpc :: rpc_status

record 'a reply =
  data :: "'a option"
  error :: "jsstring option"

text \<open>\<open>.from(t).select('*').eq('user_id', userId).limit(n)\<close>\<close>

definition select_eq_limit :: "backend \<Rightarrow> jsstring \<Rightarrow> nat \<Rightarrow> SupabaseRow list reply" where
  "select_eq_limit db userId n =
     (case read_error db of
        Some message \<Rightarrow> \<lparr>data = None, error = Some message\<rparr>
      | None \<Rightarrow> \<lparr>data = Some (take n (filter (\<lambda>row. user_id row = userId) (document_chunks db))),
                 error = None\<rparr>)"

text \<open>\<open>.from(t).select('*').eq('user_id', userId).order('created_at', { ascending: false })\<close>\<close>

definition select_eq_order_desc :: "backend \<Rightarrow> jsstring \<Rightarrow> SupabaseRow list reply" where
  "select_eq_order_desc db userId =
     (case read_error db of
        Some message \<Rightarrow> \<lparr>data = None, error = Some message\<rparr>
      | None \<Rightarrow> \<lparr>data = Some (sort_key (\<lambda>row. - created_at row)
                                 (filter (\<lambda>row. user_id row = userId) (document_chunks db))),
                 error = None\<rparr>)"

text \<open>\<open>.from(t).select('*', { count: 'exact', head: true }).eq('user_id', userId)\<close>\<close>

definition select_count_eq :: "backend \<Rightarrow> jsstring \<Rightarrow> nat reply" where
  "select_count_eq db userId =
     (case read_error db of
        Some message \<Rightarrow> \<lparr>data = None, error = Some message\<rparr>
      | None \<Rightarrow> \<lparr>data = Some (length (filter (\<lambda>row. user_id row = userId) (document_chunks db))),
                 error = None\<rparr>)"

text \<open>\<open>.from(t).insert(row)\<close>: the error, if any, and the store afterwards.\<close>

definition insert_row :: "backend \<Rightarrow> SupabaseRow \<Rightarrow> jsstring option \<times> backend" where
  "insert_row db row =
     (case write_error db of
        Some message \<Rightarrow> (Some message, db)
      | None \<Rightarrow> (None, db\<lparr>document_chunks := document_chunks db @ [row]\<rparr>))"

text \<open>\<open>.from(t).delete().eq('user_id', userId)\<close>\<close>

definition delete_eq :: "backend \<Rightarrow> jsstring \<Rightarrow> jsstring option \<times> backend" where
  "delete_eq db userId =
     (case write_error db of
        Some message \<Rightarrow> (Some message, db)
      | None \<Rightarrow> (None, db\<lparr>document_chunks :=
                             filter (\<lambda>row. user_id row \<noteq> userId) (document_chunks db)\<rparr>))"

text \<open>
  Modelled from the spec: the optional server-side ranking function
  \<open>matchDocuments(queryEmbedding, threshold, count) -> ranked rows\<close> (section 6), the
  "server-side similarity operation" of section 4.4. Its SQL is not among the sources. It
  keeps the rows whose cosine similarity to the query exceeds the threshold, ranks them by
  descending similarity and returns the first \<open>count\<close>. The call carries no owner, so it
  ranks the rows of every owner.
\<close>

definition match_documents :: "SupabaseRow list \<Rightarrow> jsnum list \<Rightarrow> real \<Rightarrow> nat \<Rightarrow> SupabaseRow list" where
  "match_documents rows query_embedding match_threshold match_count =
     take match_count
       (stable_sort
          (\<lambda>a b. js_sub (cosineSimilarity query_embedding (row_embedding b))
                         (cosineSimilarity query_embedding (row_embedding a)))
          (filter (\<lambda>row. js_gt (cosineSimilarity query_embedding (row_embedding row))
                                (Finite match_threshold)) rows))"

text \<open>\<open>supabase.rpc('match_documents', {...})\<close>: it throws, answers with an error, or ranks.\<close>

definition rpc_match_documents ::
  "backend \<Rightarrow> jsnum list \<Rightarrow> real \<Rightarrow> nat \<Rightarrow> SupabaseRow list reply promise" where
  "rpc_match_documents db query_embedding match_threshold match_count =
     (case rpc db of
        RpcThrows e \<Rightarrow> Inl e
      | RpcError message \<Rightarrow> Inr \<lparr>data = None, error = Some message\<rparr>
      | RpcAvailable \<Rightarrow>
          Inr \<lparr>data = Some (match_documents (document_chunks db) query_embedding
                              match_threshold match_count),
               error = None\<rparr>)"

subsection \<open>SupabaseVectorStore\<close>

text \<open>The mapping of a row to \<open>DocumentChunk\<close> format, the same in all three readers.\<close>

definition to_chunk :: "SupabaseRow \<Rightarrow> DocumentChunk" where
  "to_chunk row =
     \<lparr>chunk_text = row_text row,
      embedding = row_embedding row,
      metadata = \<lparr>fileName = file_name row, chunkIndex = chunk_index row,
                  timestamp = created_at row\<rparr>,
      chunk_id = row_id row\<rparr>"

text \<open>
  \<open>addDocuments\<close>: \<open>uuid n\<close> is the \<open>n\<close>-th identifier \<open>uuidv4()\<close> hands out and \<open>next\<close> counts
  the calls so far. The first failing insert throws; earlier inserts stay.
\<close>

fun addDocuments_loop ::
  "(nat \<Rightarrow> jsstring) \<Rightarrow> nat \<Rightarrow> backend \<Rightarrow> ChunkData list \<Rightarrow> jsstring \<Rightarrow> jsstring list
     \<Rightarrow> jsstring list promise \<times> backend" where
  "addDocuments_loop uuid next db [] userId ids = (Inr ids, db)"
| "addDocuments_loop uuid next db (chunk # chunks) userId ids =
     (let id = uuid next;
          (err, db') = insert_row db
             \<lparr>row_id = id, row_text = chunk_text chunk, row_embedding = embedding chunk,
              file_name = fileName (metadata chunk), chunk_index = chunkIndex (metadata chunk),
              created_at = timestamp (metadata chunk), user_id = userId\<rparr>
      in case err of
           Some message \<Rightarrow> (Inl (Error (js ''Failed to insert document chunk: '' @ message)), db')
         | None \<Rightarrow> addDocuments_loop uuid (Suc next) db' chunks userId (ids @ [id]))"

definition addDocuments ::
  "(nat \<Rightarrow> jsstring) \<Rightarrow> nat \<Rightarrow> backend \<Rightarrow> ChunkData list \<Rightarrow> jsstring
     \<Rightarrow> jsstring list promise \<times> backend" where
  "addDocuments uuid next db chunks userId = addDocuments_loop uuid next db chunks userId []"

text \<open>\<open>searchWithDirectQuery\<close>, the fallback: at most 500 owned rows, ranked in process.\<close>

definition searchWithDirectQuery ::
  "(SupabaseRow \<times> jsnum) sort_engine \<Rightarrow> backend \<Rightarrow> jsnum list \<Rightarrow> nat \<Rightarrow> jsstring
     \<Rightarrow> DocumentChunk list promise" where
  "searchWithDirectQuery engine db queryEmbedding topK userId =
     (let r = select_eq_limit db userId 500
      in case (error r, data r) of
           (None, Some allData) \<Rightarrow>
             (let similarities =
                    map (\<lambda>row. (row, cosineSimilarity queryEmbedding (row_embedding row))) allData;
                  sorted = js_sort engine (\<lambda>a b. js_sub (snd b) (snd a)) similarities
              in Inr (map (\<lambda>item. to_chunk (fst item))
                        (filter (\<lambda>item. js_gt (snd item) (Finite 0.5))
                           (js_slice sorted 0 (int topK)))))
         | _ \<Rightarrow> Inr [])"

text \<open>
  \<open>search\<close>: the remote procedure first; when it answers with an error, or throws, the
  fallback. The rows it returns are filtered by owner here.
\<close>

definition search ::
  "(SupabaseRow \<times> jsnum) sort_engine \<Rightarrow> backend \<Rightarrow> jsnum list \<Rightarrow> nat \<Rightarrow> jsstring
     \<Rightarrow> DocumentChunk list promise" where
  "search engine db queryEmbedding topK userId =
     (case rpc_match_documents db queryEmbedding 0.5 topK of
        Inl e \<Rightarrow> searchWithDirectQuery engine db queryEmbedding topK userId
      | Inr r \<Rightarrow>
          (if error r \<noteq> None then searchWithDirectQuery engine db queryEmbedding topK userId
           else Inr (map to_chunk
                       (filter (\<lambda>row. user_id row = userId)
                          (case data r of None \<Rightarrow> [] | Some rows \<Rightarrow> rows)))))"

definition getAllDocuments :: "backend \<Rightarrow> jsstring \<Rightarrow> DocumentChunk list promise" where
  "getAllDocuments db userId =
     (let r = select_eq_order_desc db userId
      in if error r \<noteq> None then Inr []
         else Inr (map to_chunk (case data r of None \<Rightarrow> [] | Some rows \<Rightarrow> rows)))"

definition clear :: "backend \<Rightarrow> jsstring \<Rightarrow> unit promise \<times> backend" where
  "clear db userId =
     (case delete_eq db userId of
        (Some message, db') \<Rightarrow> (Inl (Error (js ''Failed to clear documents: '' @ message)), db')
      | (None, db') \<Rightarrow> (Inr (), db'))"

definition getCount :: "backend \<Rightarrow> jsstring \<Rightarrow> nat promise" where
  "getCount db userId =
     (let r = select_count_eq db userId
      in if error r \<noteq> None then Inr 0
         else Inr (case data r of None \<Rightarrow> 0 | Some counted \<Rightarrow> counted))"

section \<open>Document processor (src/lib/document-processor.ts)\<close>

subsection \<open>String helpers\<close>

text \<open>
  \<open>trim\<close> removes white space and line terminators at both ends: TAB, LF, VT, FF, CR,
  SP, NBSP, the other space separators, LS, PS and the byte order mark.
\<close>

definition is_js_whitespace :: "code_unit \<Rightarrow> bool" where
  "is_js_whitespace c \<longleftrightarrow>
     c = 9 \<or> c = 10 \<or> c = 11 \<or> c = 12 \<or> c = 13 \<or> c = 32 \<or> c = 160 \<or> c = 5760 \<or>
     (8192 \<le> c \<and> c \<le> 8202) \<or> c = 8232 \<or> c = 8233 \<or> c = 8239 \<or> c = 8287 \<or>
     c = 12288 \<or> c = 65279"

definition js_trim :: "jsstring \<Rightarrow> jsstring" where
  "js_trim s = rev (dropWhile is_js_whitespace (rev (dropWhile is_js_whitespace s)))"

text \<open>\<open>lastIndexOf\<close>: the index of the last occurrence, \<open>-1\<close> when there is none.\<close>

fun lastIndexOf :: "'a list \<Rightarrow> 'a \<Rightarrow> int" where
  "lastIndexOf [] c = - 1"
| "lastIndexOf (x # xs) c =
     (let i = lastIndexOf xs c in if 0 \<le> i then i + 1 else if x = c then 0 else - 1)"

subsection \<open>splitTextIntoChunks\<close>

text \<open>
  One pass through the body of the \<open>while\<close> loop, from the cursor \<open>start\<close>: the chunk
  before trimming, and the cursor afterwards. \<open>'.'\<close> is code unit 46 and \<open>'\n'\<close> is 10.
\<close>

definition split_iteration :: "jsstring \<Rightarrow> int \<Rightarrow> int \<Rightarrow> int \<Rightarrow> jsstring \<times> int" where
  "split_iteration text chunkSize overlap start =
     (let end = min (start + chunkSize) (int (length text));
          chunk = js_slice text start end
      in if end < int (length text) then
           (let lastPeriod = lastIndexOf chunk 46;
                lastNewline = lastIndexOf chunk 10;
                breakPoint = max lastPeriod lastNewline
            in if real_of_int chunkSize * 0.5 < real_of_int breakPoint
               then (js_slice chunk 0 (breakPoint + 1), start + (breakPoint + 1))
               else (chunk, end - overlap))
         else (chunk, end))"

text \<open>\<open>if (chunk.trim().length > 0) chunks.push(chunk.trim())\<close>\<close>

definition push_trimmed :: "jsstring list \<Rightarrow> jsstring \<Rightarrow> jsstring list" where
  "push_trimmed chunks chunk =
     (if 0 < length (js_trim chunk) then chunks @ [js_trim chunk] else chunks)"

text \<open>The loop. It need not end (take \<open>overlap = chunkSize\<close>), so its result is optional.\<close>

partial_function (option) split_loop ::
  "jsstring \<Rightarrow> int \<Rightarrow> int \<Rightarrow> int \<Rightarrow> jsstring list \<Rightarrow> jsstring list option" where
  "split_loop text chunkSize overlap start chunks =
     (if start < int (length text) then
        split_loop text chunkSize overlap
          (snd (split_iteration text chunkSize overlap start))
          (push_trimmed chunks (fst (split_iteration text chunkSize overlap start)))
      else Some chunks)"

declare split_loop.simps [code]

definition splitTextIntoChunks :: "jsstring \<Rightarrow> int \<Rightarrow> int \<Rightarrow> jsstring list option" where
  "splitTextIntoChunks text chunkSize overlap = split_loop text chunkSize overlap 0 []"

subsection \<open>processPDF\<close>

record ProcessedDocument =
  doc_text :: jsstring
  doc_fileName :: jsstring
  doc_fileType :: jsstring

type_synonym buffer = "8 word list"

text \<open>
  The three extraction methods wrap external parsers; each is a parameter here, an
  \<open>async\<close> function of the buffer and the file name. Beside its outcome \<open>processPDF\<close>
  yields the methods it called, in order.
\<close>

datatype pdf_method = PDFParse | PDF2JSON | PDFJSDist

type_synonym extractor = "buffer \<Rightarrow> jsstring \<Rightarrow> ProcessedDocument promise"

definition processPDF ::
  "extractor \<Rightarrow> extractor \<Rightarrow> extractor \<Rightarrow> buffer \<Rightarrow> jsstring
     \<Rightarrow> ProcessedDocument promise \<times> pdf_method list" where
  "processPDF processPDFWithPDFParse processPDFWithPDF2JSON processPDFWithPDFJSDist
     buffer pdfName =
     (case processPDFWithPDFParse buffer pdfName of
        Inr document \<Rightarrow> (Inr document, [PDFParse])
      | Inl error1 \<Rightarrow>
          (case processPDFWithPDF2JSON buffer pdfName of
             Inr document \<Rightarrow> (Inr document, [PDFParse, PDF2JSON])
           | Inl error2 \<Rightarrow>
               (case processPDFWithPDFJSDist buffer pdfName of
                  Inr document \<Rightarrow> (Inr document, [PDFParse, PDF2JSON, PDFJSDist])
                | Inl error3 \<Rightarrow>
                    (Inl (Error
                       (js ''Failed to extract text from PDF. Tried 3 different methods. The PDF may be image-based, encrypted, or corrupted. Last error: ''
                        @ message_or (js ''Unknown error'') error3)),
                     [PDFParse, PDF2JSON, PDFJSDist]))))"

section \<open>Embedding client (src/lib/embeddings.ts)\<close>

text \<open>
  The \<open>embedding\<close> field of the provider's response: an array, an object that may hold
  \<open>values\<close>, or nothing. The provider call \<open>model.embedContent\<close> is a parameter.
\<close>

datatype embedding_field =
  EmbeddingArray "jsnum list" | EmbeddingObject "jsnum list option" | EmbeddingMissing

type_synonym embed_content = "jsstring \<Rightarrow> embedding_field promise"

fun embedding_values :: "embedding_field \<Rightarrow> jsnum list option" where
  "embedding_values (EmbeddingArray vector) = Some vector"
| "embedding_values (EmbeddingObject values) = values"
| "embedding_values EmbeddingMissing = None"

definition generateEmbedding :: "embed_content \<Rightarrow> jsstring \<Rightarrow> jsnum list promise" where
  "generateEmbedding embedContent text =
     (case (case embedContent text of
              Inl e \<Rightarrow> Inl e
            | Inr result \<Rightarrow>
                (case embedding_values result of
                   Some vector \<Rightarrow> Inr vector
                 | None \<Rightarrow> Inl (Error (js ''No embedding returned from Gemini - unexpected response structure'')))) of
        Inl e \<Rightarrow>
          Inl (Error (js ''Failed to generate embedding: '' @ message_or (js ''Unknown error'') e))
      | Inr vector \<Rightarrow> Inr vector)"

text \<open>
  \<open>Promise.all\<close>: it rejects with the reason of the promise that rejects first in time,
  and otherwise fulfils with all values in the order of the promises. \<open>settled\<close> lists
  positions in the order in which their promises settle; positions it leaves out settle
  afterwards, in order.
\<close>

definition promise_all :: "nat list \<Rightarrow> 'a promise list \<Rightarrow> 'a list promise" where
  "promise_all settled promises =
     (case filter (\<lambda>i. i < length promises \<and> isl (promises ! i))
             (settled @ [0..<length promises]) of
        i # _ \<Rightarrow> Inl (projl (promises ! i))
      | [] \<Rightarrow> Inr (map projr promises))"

text \<open>\<open>results.map(result => ...)\<close>, whose callback throws on a response without a vector.\<close>

fun map_results :: "embedding_field list \<Rightarrow> jsnum list list promise" where
  "map_results [] = Inr []"
| "map_results (result # results) =
     (case embedding_values result of
        None \<Rightarrow> Inl (Error (js ''No embedding returned from Gemini''))
      | Some vector \<Rightarrow>
          (case map_results results of
             Inl e \<Rightarrow> Inl e
           | Inr vectors \<Rightarrow> Inr (vector # vectors)))"

definition generateEmbeddings ::
  "embed_content \<Rightarrow> nat list \<Rightarrow> jsstring list \<Rightarrow> jsnum list list promise" where
  "generateEmbeddings embedContent settled texts =
     (case (case promise_all settled (map embedContent texts) of
              Inl e \<Rightarrow> Inl e
            | Inr results \<Rightarrow> map_results results) of
        Inl e \<Rightarrow>
          Inl (Error (js ''Failed to generate embeddings: '' @ message_or (js ''Unknown error'') e))
      | Inr vectors \<Rightarrow> Inr vectors)"

section \<open>Chat route (src/app/api/chat/route.ts)\<close>

text \<open>A non-negative integer written in decimal, as a template literal does.\<close>

fun js_of_nat :: "nat \<Rightarrow> jsstring" where
  "js_of_nat n =
     (if n < 10 then [of_nat (48 + n)] else js_of_nat (n div 10) @ [of_nat (48 + n mod 10)])"

declare js_of_nat.simps [simp del]

text \<open>\<open>parts.join(separator)\<close>\<close>

fun js_join :: "jsstring \<Rightarrow> jsstring list \<Rightarrow> jsstring" where
  "js_join separator [] = []"
| "js_join separator [part] = part"
| "js_join separator (part # parts) = part @ separator @ js_join separator parts"

text \<open>
  The JSON body of a reply, and the reply with its status (200 unless stated). The
  \<open>message\<close> field of the request is a string or some other value.
\<close>

record source =
  source_fileName :: jsstring
  source_chunkIndex :: int

datatype json_body =
  ErrorBody jsstring
  | ResponseBody jsstring "source list option"

record http_response =
  status :: nat
  body :: json_body

datatype jsvalue = JSString jsstring | JSOther

record auth_reply =
  user :: "jsstring option"
  authError :: "jsstring option"

text \<open>The calls made to the hosted models, each with its argument.\<close>

datatype model_call = EmbeddingCall jsstring | CompletionCall jsstring

type_synonym generate_content = "jsstring \<Rightarrow> jsstring promise"

definition build_context :: "DocumentChunk list \<Rightarrow> jsstring" where
  "build_context relevantDocs =
     js_join ([10, 10] @ js ''---'' @ [10, 10])
       (map (\<lambda>(index, doc).
               js ''[Document '' @ js_of_nat (index + 1) @ js '' from ''
               @ fileName (metadata doc) @ js '']:'' @ [10] @ chunk_text doc)
          (zip [0..<length relevantDocs] relevantDocs))"

definition build_prompt :: "jsstring \<Rightarrow> jsstring \<Rightarrow> jsstring" where
  "build_prompt context message =
     js ''You are a helpful AI assistant that answers questions based on the provided business documents. Use only the information from the documents to answer questions. If the answer is not in the documents, say so politely.''
     @ [10, 10] @ js ''Context from documents:'' @ [10] @ context
     @ [10, 10] @ js ''User Question: '' @ message
     @ [10, 10] @ js ''Answer based on the context above:''"

text \<open>
  Lines 33 to 80 of \<open>POST\<close>, the answer to a validated message of an authenticated user:
  the reply, or what was thrown, and the calls made to the hosted models.
\<close>

definition answer ::
  "(SupabaseRow \<times> jsnum) sort_engine \<Rightarrow> backend \<Rightarrow> embed_content \<Rightarrow> generate_content
     \<Rightarrow> jsstring \<Rightarrow> jsstring \<Rightarrow> http_response promise \<times> model_call list" where
  "answer engine db embedContent generateContent message userId =
     (case getCount db userId of
        Inl e \<Rightarrow> (Inl e, [])
      | Inr documentCount \<Rightarrow>
          if documentCount = 0 then
            (Inr \<lparr>status = 200,
                  body = ResponseBody
                    (js ''Please upload business documents first before asking questions.'')
                    None\<rparr>, [])
          else
            (case generateEmbedding embedContent message of
               Inl e \<Rightarrow> (Inl e, [EmbeddingCall message])
             | Inr queryEmbedding \<Rightarrow>
                 (case search engine db queryEmbedding 5 userId of
                    Inl e \<Rightarrow> (Inl e, [EmbeddingCall message])
                  | Inr relevantDocs \<Rightarrow>
                      (let context = build_context relevantDocs;
                           prompt = build_prompt context message
                       in case generateContent prompt of
                            Inl e \<Rightarrow> (Inl e, [EmbeddingCall message, CompletionCall prompt])
                          | Inr text \<Rightarrow>
                              (Inr \<lparr>status = 200,
                                    body = ResponseBody
                                      (if text = [] then js ''Sorry, I could not generate a response.''
                                       else text)
                                      (Some (map (\<lambda>doc. \<lparr>source_fileName = fileName (metadata doc),
                                                          source_chunkIndex = chunkIndex (metadata doc)\<rparr>)
                                               relevantDocs))\<rparr>,
                               [EmbeddingCall message, CompletionCall prompt])))))"

text \<open>
  \<open>POST\<close>: authentication, validation of the message, the answer, and the \<open>catch\<close> clause
  that turns anything thrown into a reply with status 500.
\<close>

definition server_fault :: "thrown \<Rightarrow> http_response" where
  "server_fault e =
     \<lparr>status = 500, body = ErrorBody (message_or (js ''Failed to process chat message'') e)\<rparr>"

definition POST ::
  "(SupabaseRow \<times> jsnum) sort_engine \<Rightarrow> auth_reply promise \<Rightarrow> jsvalue promise \<Rightarrow> backend
     \<Rightarrow> embed_content \<Rightarrow> generate_content \<Rightarrow> http_response \<times> model_call list" where
  "POST engine getUser requestJson db embedContent generateContent =
     (case getUser of
        Inl e \<Rightarrow> (server_fault e, [])
      | Inr auth \<Rightarrow>
          (case (authError auth, user auth) of
             (None, Some userId) \<Rightarrow>
               (case requestJson of
                  Inl e \<Rightarrow> (server_fault e, [])
                | Inr (JSString message) \<Rightarrow>
                    if message = [] then
                      (\<lparr>status = 400, body = ErrorBody (js ''Message is required'')\<rparr>, [])
                    else
                      (case answer engine db embedContent generateContent message userId of
                         (Inl e, calls) \<Rightarrow> (server_fault e, calls)
                       | (Inr response, calls) \<Rightarrow> (response, calls))
                | Inr JSOther \<Rightarrow>
                    (\<lparr>status = 400, body = ErrorBody (js ''Message is required'')\<rparr>, []))
           | _ \<Rightarrow> (\<lparr>status = 401, body = ErrorBody (js ''Unauthorized. Please sign in.'')\<rparr>, [])))"

section \<open>Notions used in the statements\<close>

text \<open>
  The squared norm of a vector as the loop of \<open>cosineSimilarity\<close> computes it: the
  rounded sum, from the left, of the rounded squares.
\<close>

definition squared_norm :: "jsnum list \<Rightarrow> jsnum" where
  "squared_norm a = foldl (\<lambda>sum x. js_add sum (js_mul x x)) (Finite 0) a"

text \<open>
  Equality of two numbers as JavaScript's \<open>==\<close> and \<open>===\<close> decide it: \<open>NaN\<close> is equal
  to nothing, itself included.
\<close>

fun js_equals :: "jsnum \<Rightarrow> jsnum \<Rightarrow> bool" where
  "js_equals NaN _ = False"
| "js_equals _ NaN = False"
| "js_equals x y = (x = y)"

text \<open>A number that is not negative; \<open>NaN\<close> passes.\<close>

fun nonneg :: "jsnum \<Rightarrow> bool" where
  "nonneg (Finite v) = (0 \<le> v)"
| "nonneg NegInfinity = False"
| "nonneg PosInfinity = True"
| "nonneg NaN = True"

text \<open>
  The trace of the loop from the cursor \<open>start\<close>: for each pass, the chunk before trimming
  and the number of its leading code units that the chunk before it already held.
\<close>

function split_trace :: "jsstring \<Rightarrow> int \<Rightarrow> int \<Rightarrow> int \<Rightarrow> nat \<Rightarrow> (jsstring \<times> nat) list" where
  "split_trace text chunkSize overlap start skip =
     (if start < int (length text) \<and> start < snd (split_iteration text chunkSize overlap start)
      then (fst (split_iteration text chunkSize overlap start), skip)
           # split_trace text chunkSize overlap
               (snd (split_iteration text chunkSize overlap start))
               (nat (start + int (length (fst (split_iteration text chunkSize overlap start)))
                     - snd (split_iteration text chunkSize overlap start)))
      else [])"
  by pat_completeness auto
termination
  by (relation "measure (\<lambda>(text, chunkSize, overlap, start, skip). nat (int (length text) - start))")
     auto

declare split_trace.simps [simp del]

text \<open>The chunks pushed for a trace: each chunk trimmed, the empty ones left out.\<close>

definition pushed :: "(jsstring \<times> nat) list \<Rightarrow> jsstring list" where
  "pushed trace = filter (\<lambda>chunk. chunk \<noteq> []) (map (\<lambda>(chunk, skip). js_trim chunk) trace)"

text \<open>The trace put together again, each chunk without the part it repeats.\<close>

definition stitched :: "(jsstring \<times> nat) list \<Rightarrow> jsstring" where
  "stitched trace = concat (map (\<lambda>(chunk, skip). drop skip chunk) trace)"

text \<open>
  What holds at the head of the loop after a pass that kept a full slice: the slice ended
  \<open>skip = overlap\<close> code units after the cursor and had no full stop or newline past its
  middle.
\<close>

definition after_overlap :: "jsstring \<Rightarrow> int \<Rightarrow> int \<Rightarrow> int \<Rightarrow> nat \<Rightarrow> bool" where
  "after_overlap text chunkSize overlap start skip \<longleftrightarrow>
     skip = 0 \<or>
     (int skip = overlap \<and> chunkSize \<le> start + overlap \<and> start + overlap < int (length text) \<and>
      (\<forall>j. chunkSize < 2 * j \<and> j < chunkSize \<longrightarrow>
           text ! nat (start + overlap - chunkSize + j) \<noteq> 46 \<and>
           text ! nat (start + overlap - chunkSize + j) \<noteq> 10))"

text \<open>The fixed reply of the chat route to an owner without documents.\<close>

definition guidance :: http_response where
  "guidance = \<lparr>status = 200,
      body = ResponseBody (js ''Please upload business documents first before asking questions.'') None\<rparr>"

text \<open>Descending order of a key, in JavaScript's \<open>>=\<close>.\<close>

definition descending :: "('a \<Rightarrow> jsnum) \<Rightarrow> 'a list \<Rightarrow> bool" where
  "descending key xs = sorted_wrt (\<lambda>a b. js_ge (key a) (key b)) xs"

text \<open>A multiple of the smallest subnormal number, as every finite double is.\<close>

definition on_grid :: "real \<Rightarrow> bool" where
  "on_grid r \<longleftrightarrow> (\<exists>n. r = of_int n * 2 powi (- 1074))"

text \<open>Every key is a finite double.\<close>

definition finite_keys :: "('a \<Rightarrow> jsnum) \<Rightarrow> 'a list \<Rightarrow> bool" where
  "finite_keys key xs \<longleftrightarrow> list_all (\<lambda>x. \<exists>r. key x = Finite r \<and> on_grid r) xs"

definition owned_rows :: "backend \<Rightarrow> jsstring \<Rightarrow> SupabaseRow list" where
  "owned_rows db userId = filter (\<lambda>row. user_id row = userId) (document_chunks db)"

definition similarity :: "jsnum list \<Rightarrow> DocumentChunk \<Rightarrow> jsnum" where
  "similarity queryEmbedding chunk = cosineSimilarity queryEmbedding (embedding chunk)"

text \<open>What the fallback computes from the candidate rows.\<close>

definition ranked :: "(SupabaseRow \<times> jsnum) sort_engine \<Rightarrow> jsnum list \<Rightarrow> nat \<Rightarrow> SupabaseRow list
    \<Rightarrow> DocumentChunk list" where
  "ranked engine q topK rows =
     map (\<lambda>item. to_chunk (fst item))
       (filter (\<lambda>item. js_gt (snd item) (Finite 0.5))
          (take topK
             (js_sort engine (\<lambda>a b. js_sub (snd b) (snd a))
                (map (\<lambda>row. (row, cosineSimilarity q (row_embedding row))) rows))))"

definition via_rpc :: "backend \<Rightarrow> jsnum list \<Rightarrow> nat \<Rightarrow> jsstring \<Rightarrow> DocumentChunk list" where
  "via_rpc db q topK userId =
     map to_chunk (filter (\<lambda>row. user_id row = userId)
                     (match_documents (document_chunks db) q 0.5 topK))"

section \<open>Concrete inputs\<close>

definition sample_doc :: ProcessedDocument where
  "sample_doc = \<lparr>doc_text = js ''Invoice 42'', doc_fileName = js ''a.pdf'', doc_fileType = js ''pdf''\<rparr>"

definition empty_store :: backend where
  "empty_store = \<lparr>document_chunks = [], read_error = None, write_error = None, rpc = RpcAvailable\<rparr>"

definition failing_store :: backend where
  "failing_store = \<lparr>document_chunks = [], read_error = Some (js ''connection refused''),
      write_error = None, rpc = RpcError (js ''function not found'')\<rparr>"

text \<open>A provider that fails on one text, always with the same message.\<close>

definition fails_on :: "jsstring \<Rightarrow> embed_content" where
  "fails_on bad text =
     (if text = bad then Inl (Error (js ''quota exceeded'')) else Inr (EmbeddingObject (Some [Finite 1, Finite 0])))"

text \<open>A query vector, and rows whose embeddings have its length.\<close>

definition sample_query :: "jsnum list" where
  "sample_query = [Finite 1, Finite 0, Finite 0, Finite 0, Finite 0]"

definition row_a :: SupabaseRow where
  "row_a = \<lparr>row_id = js ''id-a'', row_text = js ''Open 9 to 5.'',
            row_embedding = [Finite 3, Finite 2, Finite 1, Finite 1, Finite 1],
            file_name = js ''hours.txt'', chunk_index = 0, created_at = 1000, user_id = js ''u1''\<rparr>"

definition row_zero :: SupabaseRow where
  "row_zero = \<lparr>row_id = js ''id-z'', row_text = js ''(blank)'',
            row_embedding = [Finite 0, Finite 0, Finite 0, Finite 0, Finite 0],
            file_name = js ''blank.txt'', chunk_index = 0, created_at = 2000, user_id = js ''u1''\<rparr>"

definition row_c :: SupabaseRow where
  "row_c = \<lparr>row_id = js ''id-c'', row_text = js ''Closed on Sunday.'',
            row_embedding = [Finite 1, Finite 0, Finite 0, Finite 0, Finite 0],
            file_name = js ''hours.txt'', chunk_index = 1, created_at = 3000, user_id = js ''u1''\<rparr>"

text \<open>A store without the remote procedure, one of whose rows has an all-zero embedding.\<close>

definition zero_vector_store :: backend where
  "zero_vector_store = \<lparr>document_chunks = [row_a, row_zero, row_c], read_error = None,
      write_error = None, rpc = RpcError (js ''function not found'')\<rparr>"

text \<open>The engine that leaves the array as it is.\<close>

definition unchanged :: "'a sort_engine" where
  "unchanged comparefn xs = xs"

definition shared_store :: backend where
  "shared_store = \<lparr>document_chunks = [row_a, row_c], read_error = None,
      write_error = None, rpc = RpcAvailable\<rparr>"

definition sample_uuid :: "nat \<Rightarrow> jsstring" where
  "sample_uuid n = js ''uuid-'' @ js_of_nat n"

definition intruder_chunk :: ChunkData where
  "intruder_chunk = \<lparr>chunk_text = js ''Closed on Sunday.'', embedding = [Finite 1, Finite 0],
      metadata = \<lparr>fileName = js ''x.txt'', chunkIndex = 0, timestamp = 5000\<rparr>\<rparr>"

definition sample_text :: jsstring where
  "sample_text = js ''One two. Three four.  Six''"

section \<open>Properties\<close>

subsection \<open>Rounding to a double\<close>

text \<open>The binade of a number: \<open>2 powi binade x \<le> \<bar>x\<bar> < 2 powi (binade x + 1)\<close> for a normal \<open>x\<close>.\<close>

lemma ulp_pos: "0 < ulp x"
  by (simp add: ulp_def zero_less_power_int)

lemma binade_ge: "- 1022 \<le> binade x"
  by (simp add: binade_def)

lemma floor_log2_bounds:
  assumes "x \<noteq> 0"
  shows "2 powi \<lfloor>log 2 \<bar>x\<bar>\<rfloor> \<le> \<bar>x\<bar>" and "\<bar>x\<bar> < 2 powi (\<lfloor>log 2 \<bar>x\<bar>\<rfloor> + 1)"
proof -
  have pos: "0 < \<bar>x\<bar>" using assms by simp
  have conv: "(2::real) powr real_of_int k = 2 powi k" for k
    by (rule powr_real_of_int') simp_all
  from floor_log_eq_powr_iff [OF pos, of 2 "\<lfloor>log 2 \<bar>x\<bar>\<rfloor>"]
  have "2 powr real_of_int \<lfloor>log 2 \<bar>x\<bar>\<rfloor> \<le> \<bar>x\<bar>
        \<and> \<bar>x\<bar> < 2 powr real_of_int (\<lfloor>log 2 \<bar>x\<bar>\<rfloor> + 1)"
    by simp
  then show "2 powi \<lfloor>log 2 \<bar>x\<bar>\<rfloor> \<le> \<bar>x\<bar>" and "\<bar>x\<bar> < 2 powi (\<lfloor>log 2 \<bar>x\<bar>\<rfloor> + 1)"
    by (simp_all only: conv)
qed

lemma powi_pos: "0 < (2::real) powi k"
  by (simp add: zero_less_power_int)

lemma powi_mono: "a \<le> b \<Longrightarrow> (2::real) powi a \<le> 2 powi b"
  by (rule power_int_increasing) simp_all

lemma powi_strict_mono: "a < b \<Longrightarrow> (2::real) powi a < 2 powi b"
  by (rule power_int_strict_increasing) simp_all

lemma binade_upper: "x \<noteq> 0 \<Longrightarrow> \<bar>x\<bar> < 2 powi (binade x + 1)"
proof -
  assume "x \<noteq> 0"
  then have "\<bar>x\<bar> < 2 powi (\<lfloor>log 2 \<bar>x\<bar>\<rfloor> + 1)" by (rule floor_log2_bounds)
  also have "\<dots> \<le> 2 powi (binade x + 1)" by (rule powi_mono) (simp add: binade_def)
  finally show ?thesis .
qed

lemma binade_lower: "2 powi (- 1022) \<le> \<bar>x\<bar> \<Longrightarrow> 2 powi binade x \<le> \<bar>x\<bar>"
proof -
  assume low: "2 powi (- 1022) \<le> \<bar>x\<bar>"
  with powi_pos have "0 < \<bar>x\<bar>" by (rule less_le_trans)
  then have nz: "x \<noteq> 0" by simp
  show ?thesis
  proof (cases "- 1022 \<le> \<lfloor>log 2 \<bar>x\<bar>\<rfloor>")
    case True
    then have "binade x = \<lfloor>log 2 \<bar>x\<bar>\<rfloor>" by (simp add: binade_def)
    with floor_log2_bounds(1) [OF nz] show ?thesis by simp
  next
    case False
    then have "binade x = - 1022" by (simp add: binade_def)
    with low show ?thesis by simp
  qed
qed

lemma binade_le: "x \<noteq> 0 \<Longrightarrow> \<bar>x\<bar> < 2 powi (k + 1) \<Longrightarrow> - 1022 \<le> k \<Longrightarrow> binade x \<le> k"
proof -
  assume nz: "x \<noteq> 0" and up: "\<bar>x\<bar> < 2 powi (k + 1)" and k: "- 1022 \<le> k"
  have "\<lfloor>log 2 \<bar>x\<bar>\<rfloor> \<le> k"
  proof (rule ccontr)
    assume "\<not> \<lfloor>log 2 \<bar>x\<bar>\<rfloor> \<le> k"
    then have "k + 1 \<le> \<lfloor>log 2 \<bar>x\<bar>\<rfloor>" by simp
    then have "(2::real) powi (k + 1) \<le> 2 powi \<lfloor>log 2 \<bar>x\<bar>\<rfloor>" by (rule powi_mono)
    also have "\<dots> \<le> \<bar>x\<bar>" using nz by (rule floor_log2_bounds)
    finally show False using up by simp
  qed
  with k show ?thesis by (simp add: binade_def)
qed

lemma binade_eqI:
  "2 powi k \<le> \<bar>x\<bar> \<Longrightarrow> \<bar>x\<bar> < 2 powi (k + 1) \<Longrightarrow> - 1022 \<le> k \<Longrightarrow> binade x = k"
proof -
  assume low: "2 powi k \<le> \<bar>x\<bar>" and up: "\<bar>x\<bar> < 2 powi (k + 1)" and k: "- 1022 \<le> k"
  have "0 < \<bar>x\<bar>" using powi_pos low by (rule less_le_trans)
  then have nz: "x \<noteq> 0" by simp
  have "binade x \<le> k" using nz up k by (rule binade_le)
  moreover have "k \<le> binade x"
  proof (rule ccontr)
    assume "\<not> k \<le> binade x"
    then have "binade x + 1 \<le> k" by simp
    then have "(2::real) powi (binade x + 1) \<le> 2 powi k" by (rule powi_mono)
    with binade_upper [OF nz] low show False by simp
  qed
  ultimately show ?thesis by simp
qed

text \<open>Rounding to an integer: off by a half at most, monotone, exact on integers.\<close>

lemma rhe_disj:
  "round_half_even q = \<lfloor>q\<rfloor> \<and> q - of_int \<lfloor>q\<rfloor> \<le> 1 / 2 \<or>
   round_half_even q = \<lfloor>q\<rfloor> + 1 \<and> 1 / 2 \<le> q - of_int \<lfloor>q\<rfloor>"
  unfolding round_half_even_def Let_def by auto

lemma rhe_cases:
  obtains "round_half_even q = \<lfloor>q\<rfloor>" "q - of_int \<lfloor>q\<rfloor> \<le> 1 / 2"
  | "round_half_even q = \<lfloor>q\<rfloor> + 1" "1 / 2 \<le> q - of_int \<lfloor>q\<rfloor>"
  using rhe_disj [of q] by blast

lemma rhe_error: "\<bar>of_int (round_half_even q) - q\<bar> \<le> 1 / 2"
proof (cases q rule: rhe_cases)
  case 1
  then show ?thesis using of_int_floor_le [of q] by simp
next
  case 2
  then show ?thesis using real_of_int_floor_add_one_gt [of q] by simp
qed

lemma int_less_half: "real_of_int n < of_int N + 1 / 2 \<Longrightarrow> n \<le> N"
proof -
  assume "real_of_int n < of_int N + 1 / 2"
  then have "real_of_int n < of_int (N + 1)" by simp
  then have "n < N + 1" by (simp only: of_int_less_iff)
  then show ?thesis by simp
qed

lemma rhe_le: "q < of_int N + 1 / 2 \<Longrightarrow> round_half_even q \<le> N"
proof (cases q rule: rhe_cases)
  case 1
  assume "q < of_int N + 1 / 2"
  with of_int_floor_le [of q] have "real_of_int \<lfloor>q\<rfloor> < of_int N + 1 / 2" by linarith
  then show ?thesis unfolding 1(1) by (rule int_less_half)
next
  case 2
  assume "q < of_int N + 1 / 2"
  with 2(2) have "real_of_int \<lfloor>q\<rfloor> < of_int N" by linarith
  then have "\<lfloor>q\<rfloor> < N" by (simp only: of_int_less_iff)
  then show ?thesis unfolding 2(1) by simp
qed

lemma rhe_ge: "of_int N - 1 / 2 < q \<Longrightarrow> N \<le> round_half_even q"
proof (cases q rule: rhe_cases)
  case 1
  assume "of_int N - 1 / 2 < q"
  with 1(2) have "real_of_int N < of_int (\<lfloor>q\<rfloor> + 1)" by linarith
  then have "N < \<lfloor>q\<rfloor> + 1" by (simp only: of_int_less_iff)
  then show ?thesis unfolding 1(1) by simp
next
  case 2
  assume "of_int N - 1 / 2 < q"
  with real_of_int_floor_add_one_gt [of q]
  have "real_of_int (N - 1) < of_int \<lfloor>q\<rfloor> + 1 / 2" by linarith
  then have "N - 1 \<le> \<lfloor>q\<rfloor>" by (rule int_less_half)
  then show ?thesis unfolding 2(1) by simp
qed

lemma rhe_of_int: "round_half_even (of_int n) = n"
proof (rule antisym)
  show "round_half_even (of_int n) \<le> n" by (rule rhe_le) simp
  show "n \<le> round_half_even (of_int n)" by (rule rhe_ge) simp
qed

lemma rhe_abs_le: "\<bar>q\<bar> < of_int N + 1 / 2 \<Longrightarrow> \<bar>round_half_even q\<bar> \<le> N"
proof -
  assume a: "\<bar>q\<bar> < of_int N + 1 / 2"
  then have "q < of_int N + 1 / 2" by linarith
  then have 1: "round_half_even q \<le> N" by (rule rhe_le)
  from a have "of_int (- N) - 1 / 2 < q" by simp
  then have "- N \<le> round_half_even q" by (rule rhe_ge)
  with 1 show ?thesis by linarith
qed

lemma rhe_abs_ge: "of_int N \<le> \<bar>q\<bar> \<Longrightarrow> N \<le> \<bar>round_half_even q\<bar>"
proof (cases "0 \<le> q")
  case True
  assume "of_int N \<le> \<bar>q\<bar>"
  with True have "of_int N - 1 / 2 < q" by linarith
  then have "N \<le> round_half_even q" by (rule rhe_ge)
  then show ?thesis by linarith
next
  case False
  assume "of_int N \<le> \<bar>q\<bar>"
  with False have "q < of_int (- N) + 1 / 2" by simp
  then have "round_half_even q \<le> - N" by (rule rhe_le)
  then show ?thesis by linarith
qed

lemma rhe_nonneg: "0 \<le> q \<Longrightarrow> 0 \<le> round_half_even q"
  by (rule rhe_ge) simp

text \<open>
  Rounding to the grid of the binade: off by half an \<open>ulp\<close> at most, that is by a
  relative \<open>1 / 2 ^ 53\<close> on a normal number; never across a power of two, nor across a
  double from below its midpoint with the next; always a multiple of the smallest
  subnormal; exact on a number with at most 53 significant bits.
\<close>

lemma powi_add: "(2::real) powi (a + b) = 2 powi a * 2 powi b"
  by (rule power_int_add) simp

lemma powi_diff: "(2::real) powi (a - b) = 2 powi a / 2 powi b"
  by (rule power_int_diff) simp

lemma powi_of_int: "0 \<le> k \<Longrightarrow> (2::real) powi k = of_int (2 ^ nat k)"
  by (simp add: power_int_nonneg_exp)

lemma ulp_eq: "ulp x = 2 powi binade x / 2 ^ 52"
  by (simp add: ulp_def powi_diff)

lemma nearest_0 [simp]: "nearest 0 = 0"
  by (simp add: nearest_def rhe_of_int [of 0, simplified])

lemma nearest_error: "\<bar>nearest x - x\<bar> \<le> ulp x / 2"
proof -
  have "nearest x - x = (of_int (round_half_even (x / ulp x)) - x / ulp x) * ulp x"
    using ulp_pos [of x] by (simp add: nearest_def algebra_simps)
  then have "\<bar>nearest x - x\<bar> = \<bar>of_int (round_half_even (x / ulp x)) - x / ulp x\<bar> * ulp x"
    using ulp_pos [of x] by (simp add: abs_mult)
  also have "\<dots> \<le> 1 / 2 * ulp x"
    using rhe_error [of "x / ulp x"] ulp_pos [of x] by (intro mult_right_mono) simp_all
  finally show ?thesis by simp
qed

lemma nearest_nonneg: "0 \<le> x \<Longrightarrow> 0 \<le> nearest x"
  using ulp_pos [of x] rhe_nonneg [of "x / ulp x"] by (simp add: nearest_def)

lemma ulp_normal: "2 powi (- 1022) \<le> \<bar>x\<bar> \<Longrightarrow> ulp x \<le> \<bar>x\<bar> / 2 ^ 52"
  unfolding ulp_eq using binade_lower [of x] by (simp add: divide_right_mono)

lemma ulp_subnormal: "x \<noteq> 0 \<Longrightarrow> \<bar>x\<bar> < 2 powi (- 1022) \<Longrightarrow> ulp x = 2 powi (- 1074)"
proof -
  assume nz: "x \<noteq> 0" and "\<bar>x\<bar> < 2 powi (- 1022)"
  then have "\<bar>x\<bar> < 2 powi (- 1022 + 1)"
    using powi_strict_mono [of "- 1022" "- 1022 + 1"] by linarith
  with nz have "binade x \<le> - 1022" by (rule binade_le) simp
  with binade_ge [of x] have "binade x = - 1022" by simp
  then show ?thesis by (simp add: ulp_def)
qed

lemma powi_less_D: "(2::real) powi a < 2 powi b \<Longrightarrow> a < b"
  using powi_mono [of b a] by (cases "a < b") auto

lemma quot_upper: "x \<noteq> 0 \<Longrightarrow> \<bar>x\<bar> / ulp x < 2 ^ 53"
proof -
  assume "x \<noteq> 0"
  then have "\<bar>x\<bar> < 2 powi (binade x + 1)" by (rule binade_upper)
  also have "\<dots> = 2 ^ 53 * ulp x" by (simp add: ulp_eq powi_add)
  finally show ?thesis using ulp_pos [of x] by (simp add: pos_divide_less_eq)
qed

lemma quot_lower: "2 powi (- 1022) \<le> \<bar>x\<bar> \<Longrightarrow> 2 ^ 52 \<le> \<bar>x\<bar> / ulp x"
proof -
  assume "2 powi (- 1022) \<le> \<bar>x\<bar>"
  then have "2 powi binade x \<le> \<bar>x\<bar>" by (rule binade_lower)
  moreover have "2 powi binade x = 2 ^ 52 * ulp x" by (simp add: ulp_eq)
  ultimately show ?thesis using ulp_pos [of x] by (simp add: pos_le_divide_eq)
qed

lemma abs_nearest: "\<bar>nearest x\<bar> = of_int \<bar>round_half_even (x / ulp x)\<bar> * ulp x"
  using ulp_pos [of x] by (simp add: nearest_def abs_mult)

lemma abs_quot: "\<bar>x / ulp x\<bar> = \<bar>x\<bar> / ulp x"
  using ulp_pos [of x] by simp

lemma nearest_abs_ge:
  assumes "2 powi k \<le> \<bar>x\<bar>" and "- 1022 \<le> k"
  shows "2 powi k \<le> \<bar>nearest x\<bar>"
proof -
  have low: "2 powi (- 1022) \<le> \<bar>x\<bar>"
    using powi_mono [OF assms(2)] assms(1) by linarith
  with powi_pos have "0 < \<bar>x\<bar>" by (rule less_le_trans)
  then have nz: "x \<noteq> 0" by simp
  have "(2::real) powi k < 2 powi (binade x + 1)"
    using assms(1) binade_upper [OF nz] by linarith
  then have "k \<le> binade x" using powi_less_D [of k "binade x + 1"] by simp
  then have "(2::real) powi k \<le> 2 powi binade x" by (rule powi_mono)
  also have "\<dots> = of_int (2 ^ 52) * ulp x" by (simp add: ulp_eq)
  also have "\<dots> \<le> of_int \<bar>round_half_even (x / ulp x)\<bar> * ulp x"
  proof (rule mult_right_mono)
    have "real_of_int (2 ^ 52) \<le> \<bar>x / ulp x\<bar>"
      using quot_lower [OF low] by (simp only: abs_quot) simp
    then have "2 ^ 52 \<le> \<bar>round_half_even (x / ulp x)\<bar>" by (rule rhe_abs_ge)
    then show "real_of_int (2 ^ 52) \<le> of_int \<bar>round_half_even (x / ulp x)\<bar>"
      by (simp only: of_int_le_iff)
    show "0 \<le> ulp x" using ulp_pos [of x] by simp
  qed
  finally show ?thesis by (simp only: abs_nearest)
qed

lemma nearest_abs_le:
  assumes "\<bar>x\<bar> < (of_int N + 1 / 2) * 2 powi (e - 52)" and "2 ^ 52 \<le> N" and "N < 2 ^ 53"
    and "- 1022 \<le> e"
  shows "\<bar>nearest x\<bar> \<le> of_int N * 2 powi (e - 52)"
proof (cases "x = 0")
  case True
  have "0 \<le> real_of_int N * 2 powi (e - 52)"
    using assms(2) powi_pos [of "e - 52"] by (intro mult_nonneg_nonneg) simp_all
  with True show ?thesis by simp
next
  case False
  have N: "real_of_int N + 1 / 2 \<le> 2 ^ 53"
  proof -
    from assms(3) have "N + 1 \<le> 2 ^ 53" by simp
    then have "real_of_int (N + 1) \<le> of_int (2 ^ 53)" by (simp only: of_int_le_iff)
    then show ?thesis by simp
  qed
  have "(real_of_int N + 1 / 2) * 2 powi (e - 52) \<le> 2 ^ 53 * 2 powi (e - 52)"
    using N powi_pos [of "e - 52"] by (intro mult_right_mono) simp_all
  also have "\<dots> = 2 powi (e + 1)" by (simp add: powi_diff powi_add)
  finally have "\<bar>x\<bar> < 2 powi (e + 1)" using assms(1) by linarith
  with False have be: "binade x \<le> e" using assms(4) by (rule binade_le)
  show ?thesis
  proof (cases "binade x = e")
    case True
    then have u: "ulp x = 2 powi (e - 52)" by (simp add: ulp_def)
    have "\<bar>x / ulp x\<bar> < of_int N + 1 / 2"
      using assms(1) powi_pos [of "e - 52"] unfolding abs_quot u
      by (simp add: pos_divide_less_eq)
    then have "\<bar>round_half_even (x / ulp x)\<bar> \<le> N" by (rule rhe_abs_le)
    then have "real_of_int \<bar>round_half_even (x / ulp x)\<bar> \<le> of_int N"
      by (simp only: of_int_le_iff)
    then have "real_of_int \<bar>round_half_even (x / ulp x)\<bar> * ulp x \<le> of_int N * ulp x"
      using ulp_pos [of x] by (intro mult_right_mono) simp_all
    then show ?thesis by (simp only: abs_nearest u)
  next
    case ne: False
    with be have lt: "binade x + 1 \<le> e" by simp
    have "\<bar>x / ulp x\<bar> < of_int (2 ^ 53) + 1 / 2"
    proof -
      have "real_of_int (2 ^ 53) = 2 ^ 53" by simp
      with quot_upper [OF False] show ?thesis unfolding abs_quot by linarith
    qed
    then have "\<bar>round_half_even (x / ulp x)\<bar> \<le> 2 ^ 53" by (rule rhe_abs_le)
    then have "real_of_int \<bar>round_half_even (x / ulp x)\<bar> \<le> of_int (2 ^ 53)"
      by (simp only: of_int_le_iff)
    then have "real_of_int \<bar>round_half_even (x / ulp x)\<bar> * ulp x \<le> of_int (2 ^ 53) * ulp x"
      using ulp_pos [of x] by (intro mult_right_mono) simp_all
    also have "\<dots> = 2 powi (binade x + 1)" by (simp add: ulp_eq powi_add)
    also have "\<dots> \<le> 2 powi e" using lt by (rule powi_mono)
    also have "\<dots> = 2 ^ 52 * 2 powi (e - 52)" by (simp add: powi_diff)
    also have "\<dots> \<le> of_int N * 2 powi (e - 52)"
    proof (rule mult_right_mono)
      from assms(2) have "real_of_int (2 ^ 52) \<le> of_int N" by (simp only: of_int_le_iff)
      then show "2 ^ 52 \<le> real_of_int N" by simp
      show "0 \<le> (2::real) powi (e - 52)" using powi_pos [of "e - 52"] by simp
    qed
    finally show ?thesis by (simp only: abs_nearest)
  qed
qed

lemma nearest_grid: "\<exists>n. nearest x = of_int n * 2 powi (- 1074)"
proof -
  have "0 \<le> binade x + 1022" using binade_ge [of x] by simp
  then have "(2::real) powi (binade x + 1022) = of_int (2 ^ nat (binade x + 1022))"
    by (rule powi_of_int)
  moreover have "ulp x = 2 powi (binade x + 1022) * 2 powi (- 1074)"
    unfolding ulp_def powi_add [symmetric] by simp
  ultimately have "nearest x =
      of_int (round_half_even (x / ulp x) * 2 ^ nat (binade x + 1022)) * 2 powi (- 1074)"
    by (simp add: nearest_def)
  then show ?thesis ..
qed

lemma nearest_exact:
  assumes "x = of_int n * 2 powi e" and "\<bar>n\<bar> < 2 ^ 53" and "- 1074 \<le> e"
  shows "nearest x = x"
proof (cases "x = 0")
  case True
  then show ?thesis by simp
next
  case False
  from assms(2) have n: "real_of_int \<bar>n\<bar> < of_int (2 ^ 53)" by (simp only: of_int_less_iff)
  have "\<bar>x\<bar> = real_of_int \<bar>n\<bar> * 2 powi e"
    using powi_pos [of e] by (simp add: assms(1) abs_mult)
  also have "\<dots> < of_int (2 ^ 53) * 2 powi e"
    using n powi_pos [of e] by (intro mult_strict_right_mono)
  also have "\<dots> = (2::real) powi (e + 52 + 1)"
    by (simp add: powi_add)
  finally have "\<bar>x\<bar> < 2 powi (e + 52 + 1)" .
  with False have "binade x \<le> e + 52" using assms(3) by (intro binade_le) simp_all
  then have j: "0 \<le> e + 52 - binade x" by simp
  define u where "u = ulp x"
  define m where "m = n * 2 ^ nat (e + 52 - binade x)"
  have u: "0 < u" unfolding u_def by (rule ulp_pos)
  have "2 powi e / u = 2 powi (e + 52 - binade x)"
    by (simp add: u_def ulp_def powi_diff powi_add)
  also have "\<dots> = of_int (2 ^ nat (e + 52 - binade x))" using j by (rule powi_of_int)
  finally have "of_int n * (2 powi e / u) = real_of_int m" by (simp add: m_def)
  then have q: "x / u = of_int m" by (simp add: assms(1))
  then have "round_half_even (x / u) = m" by (simp only: rhe_of_int)
  then have "nearest x = x / u * u" unfolding nearest_def u_def [symmetric] q by simp
  also have "\<dots> = x" using u by simp
  finally show ?thesis .
qed

lemma nearest_tiny: "\<bar>x\<bar> < 2 powi (- 1075) \<Longrightarrow> nearest x = 0"
proof (cases "x = 0")
  case True
  then show ?thesis by simp
next
  case False
  assume small: "\<bar>x\<bar> < 2 powi (- 1075)"
  then have "\<bar>x\<bar> < 2 powi (- 1022)"
    using powi_strict_mono [of "- 1075" "- 1022"] by simp
  with False have u: "ulp x = 2 powi (- 1074)" by (rule ulp_subnormal)
  have "(2::real) powi (- 1075) = 1 / 2 * 2 powi (- 1074)"
    using powi_add [of "- 1" "- 1074"] by simp
  with small have "\<bar>x / ulp x\<bar> < of_int 0 + 1 / 2"
    using powi_pos [of "- 1074"] unfolding abs_quot u by (simp add: pos_divide_less_eq)
  then have "\<bar>round_half_even (x / ulp x)\<bar> \<le> 0" by (rule rhe_abs_le)
  then show ?thesis by (simp add: nearest_def)
qed

text \<open>
  The double returned: the rounded number when that is below \<open>2 ^ 1024\<close>, and then at
  most \<open>2 ^ 1024 - 2 ^ 971\<close>, the largest finite double; an infinity otherwise.
\<close>

lemma to_double_not_NaN [simp]: "to_double x \<noteq> NaN"
  by (simp add: to_double_def)

lemma to_double_Finite: "\<bar>nearest x\<bar> < 2 ^ 1024 \<Longrightarrow> to_double x = Finite (nearest x)"
  by (simp add: to_double_def)

lemma to_double_FiniteD: "to_double x = Finite y \<Longrightarrow> y = nearest x \<and> \<bar>nearest x\<bar> < 2 ^ 1024"
  by (auto simp: to_double_def split: if_splits)

lemma to_double_exact:
  assumes "x = of_int n * 2 powi e" and "\<bar>n\<bar> < 2 ^ 53" and "- 1074 \<le> e" and "\<bar>x\<bar> < 2 ^ 1024"
  shows "to_double x = Finite x"
  using to_double_Finite [of x] assms(4) nearest_exact [OF assms(1,2,3)] by simp

lemma to_double_of_int: "\<bar>n\<bar> < 2 ^ 53 \<Longrightarrow> to_double (of_int n) = Finite (of_int n)"
proof -
  assume n: "\<bar>n\<bar> < 2 ^ 53"
  then have "\<bar>n\<bar> < 2 ^ 1024" by simp
  then have "real_of_int \<bar>n\<bar> < of_int (2 ^ 1024)" by (simp only: of_int_less_iff)
  then have "\<bar>real_of_int n\<bar> < 2 ^ 1024" by simp
  with n show ?thesis by (intro to_double_exact [of _ n 0]) simp_all
qed

lemma to_double_0 [simp]: "to_double 0 = Finite 0"
  using to_double_of_int [of 0] by simp

lemma to_double_1 [simp]: "to_double 1 = Finite 1"
  using to_double_of_int [of 1] by simp

lemma to_double_numeral:
  "(numeral k :: int) < 2 ^ 53 \<Longrightarrow> to_double (numeral k) = Finite (numeral k)"
  using to_double_of_int [of "numeral k"] by simp

lemma to_double_overflow:
  assumes "2 ^ 1024 \<le> \<bar>x\<bar>"
  shows "to_double x = (if 0 < x then PosInfinity else NegInfinity)"
proof -
  have "(2::real) powi 1024 \<le> \<bar>x\<bar>" using assms by simp
  then have "(2::real) powi 1024 \<le> \<bar>nearest x\<bar>" by (rule nearest_abs_ge) simp
  then show ?thesis by (simp add: to_double_def)
qed

lemma to_double_underflow: "\<bar>x\<bar> < 2 powi (- 1075) \<Longrightarrow> to_double x = Finite 0"
  by (simp add: to_double_def nearest_tiny)

lemma to_double_nonneg:
  "0 \<le> x \<Longrightarrow> to_double x = PosInfinity \<or> (\<exists>y. to_double x = Finite y \<and> 0 \<le> y)"
proof (cases "x = 0")
  case True
  then show ?thesis by simp
next
  case False
  assume "0 \<le> x"
  with False have "0 < x" by simp
  moreover from \<open>0 \<le> x\<close> have "0 \<le> nearest x" by (rule nearest_nonneg)
  ultimately show ?thesis by (simp add: to_double_def)
qed

lemma to_double_bound:
  assumes "to_double x = Finite y"
  shows "\<bar>y\<bar> \<le> 2 ^ 1024 - 2 ^ 971"
proof (cases "x = 0")
  case True
  with assms show ?thesis by simp
next
  case False
  from to_double_FiniteD [OF assms] have y: "y = nearest x" and fin: "\<bar>nearest x\<bar> < 2 ^ 1024"
    by simp_all
  define n where "n = \<bar>round_half_even (x / ulp x)\<bar>"
  have yn: "\<bar>y\<bar> = of_int n * 2 powi (binade x - 52)"
    unfolding y abs_nearest n_def ulp_def by (rule refl)
  have "\<bar>x / ulp x\<bar> < of_int (2 ^ 53) + 1 / 2"
  proof -
    have "real_of_int (2 ^ 53) = 2 ^ 53" by simp
    with quot_upper [OF False] show ?thesis unfolding abs_quot by linarith
  qed
  then have n53: "n \<le> 2 ^ 53" unfolding n_def by (rule rhe_abs_le)
  have n0: "0 \<le> n" by (simp add: n_def)
  have b: "binade x \<le> 1023"
  proof (rule ccontr)
    assume "\<not> binade x \<le> 1023"
    then have big: "1024 \<le> binade x" by simp
    then have "binade x = \<lfloor>log 2 \<bar>x\<bar>\<rfloor>" by (simp add: binade_def max_def split: if_splits)
    with floor_log2_bounds(1) [OF False] have "2 powi binade x \<le> \<bar>x\<bar>" by simp
    moreover have "(2::real) powi 1024 \<le> 2 powi binade x" using big by (rule powi_mono)
    ultimately have "(2::real) powi 1024 \<le> \<bar>x\<bar>" by linarith
    then have "(2::real) powi 1024 \<le> \<bar>nearest x\<bar>" by (rule nearest_abs_ge) simp
    with fin show False by simp
  qed
  show ?thesis
  proof (cases "n = 2 ^ 53")
    case True
    then have "\<bar>y\<bar> = 2 powi (binade x + 1)" by (simp add: yn powi_diff powi_add)
    moreover have "(2::real) powi (binade x + 1) < 2 powi 1024"
      using fin y calculation by simp
    then have "binade x + 1 < 1024" by (rule powi_less_D)
    then have "binade x + 1 \<le> 1023" by simp
    then have "(2::real) powi (binade x + 1) \<le> 2 powi 1023" by (rule powi_mono)
    ultimately have "\<bar>y\<bar> \<le> 2 ^ 1023" by simp
    then show ?thesis by simp
  next
    case False
    with n53 have "n \<le> 2 ^ 53 - 1" by simp
    then have "real_of_int n \<le> of_int (2 ^ 53 - 1)" by (simp only: of_int_le_iff)
    moreover have "(2::real) powi (binade x - 52) \<le> 2 powi 971"
      using b by (intro powi_mono) simp
    ultimately have "real_of_int n * 2 powi (binade x - 52) \<le> of_int (2 ^ 53 - 1) * 2 powi 971"
      using n0 powi_pos [of "binade x - 52"] by (intro mult_mono) simp_all
    then show ?thesis unfolding yn by simp
  qed
qed

text \<open>
  The sign of a rounded multiple of the smallest subnormal is the sign of the number: a
  difference of two doubles that is not zero does not round to zero.
\<close>

lemma rhe_nonpos: "q \<le> 0 \<Longrightarrow> round_half_even q \<le> 0"
  by (rule rhe_le) simp

lemma nearest_nonpos: "x \<le> 0 \<Longrightarrow> nearest x \<le> 0"
  using ulp_pos [of x] rhe_nonpos [of "x / ulp x"]
  by (simp add: nearest_def mult_le_0_iff divide_le_0_iff)

lemma nearest_abs_ge_grid:
  assumes "2 powi (- 1074) \<le> \<bar>z\<bar>"
  shows "2 powi (- 1074) \<le> \<bar>nearest z\<bar>"
proof (cases "2 powi (- 1022) \<le> \<bar>z\<bar>")
  case True
  then have "2 powi (- 1022) \<le> \<bar>nearest z\<bar>" by (rule nearest_abs_ge) simp
  moreover have "(2::real) powi (- 1074) \<le> 2 powi (- 1022)" by (rule powi_mono) simp
  ultimately show ?thesis by linarith
next
  case False
  from powi_pos assms have "0 < \<bar>z\<bar>" by (rule less_le_trans)
  then have "z \<noteq> 0" by simp
  with False have u: "ulp z = 2 powi (- 1074)" by (intro ulp_subnormal) simp_all
  have "real_of_int 1 \<le> \<bar>z / ulp z\<bar>"
    unfolding abs_quot u using assms powi_pos [of "- 1074"] by (simp add: pos_le_divide_eq)
  then have "1 \<le> \<bar>round_half_even (z / ulp z)\<bar>" by (rule rhe_abs_ge)
  then have "real_of_int 1 \<le> of_int \<bar>round_half_even (z / ulp z)\<bar>"
    by (simp only: of_int_le_iff)
  then have "real_of_int 1 * ulp z \<le> of_int \<bar>round_half_even (z / ulp z)\<bar> * ulp z"
    using ulp_pos [of z] by (intro mult_right_mono) simp_all
  then show ?thesis unfolding abs_nearest u by simp
qed

lemma on_grid_0: "on_grid 0"
  unfolding on_grid_def by (rule exI [of _ 0]) simp

lemma on_grid_nearest: "on_grid (nearest x)"
  unfolding on_grid_def by (rule nearest_grid)

lemma on_grid_diff: "on_grid x \<Longrightarrow> on_grid y \<Longrightarrow> on_grid (x - y)"
proof -
  assume "on_grid x" "on_grid y"
  then obtain m n where "x = of_int m * 2 powi (- 1074)" "y = of_int n * 2 powi (- 1074)"
    unfolding on_grid_def by blast
  then have "x - y = of_int (m - n) * 2 powi (- 1074)" by (simp add: algebra_simps)
  then show ?thesis unfolding on_grid_def ..
qed

lemma on_grid_abs_ge:
  assumes "on_grid z" and "z \<noteq> 0"
  shows "2 powi (- 1074) \<le> \<bar>z\<bar>"
proof -
  define g :: real where "g = 2 powi (- 1074)"
  have g: "0 < g" unfolding g_def by (rule powi_pos)
  from assms(1) obtain n where z: "z = of_int n * g" unfolding on_grid_def g_def by blast
  with assms(2) have "n \<noteq> 0" by auto
  then have "1 \<le> \<bar>n\<bar>" by simp
  then have "real_of_int 1 \<le> of_int \<bar>n\<bar>" by (simp only: of_int_le_iff)
  then have "real_of_int 1 * g \<le> of_int \<bar>n\<bar> * g" using g by (intro mult_right_mono) simp_all
  moreover have "\<bar>z\<bar> = of_int \<bar>n\<bar> * g" using g by (simp add: z abs_mult)
  ultimately show ?thesis unfolding g_def by simp
qed

lemma to_double_sign:
  assumes "on_grid z"
  shows "cf_lt (to_double z) \<longleftrightarrow> z < 0" and "cf_gt (to_double z) \<longleftrightarrow> 0 < z"
proof -
  have "(cf_lt (to_double z) \<longleftrightarrow> z < 0) \<and> (cf_gt (to_double z) \<longleftrightarrow> 0 < z)"
  proof (cases "z = 0")
    case True
    then show ?thesis by simp
  next
    case False
    from on_grid_abs_ge [OF assms False] have "2 powi (- 1074) \<le> \<bar>nearest z\<bar>"
      by (rule nearest_abs_ge_grid)
    with powi_pos have nz: "0 < \<bar>nearest z\<bar>" by (rule less_le_trans)
    show ?thesis
    proof (cases "0 < z")
      case True
      then have "0 \<le> nearest z" by (intro nearest_nonneg) simp
      with nz have "0 < nearest z" by simp
      with True show ?thesis by (simp add: to_double_def)
    next
      case neg: False
      with False have "z < 0" by simp
      then have "nearest z \<le> 0" by (intro nearest_nonpos) simp
      with nz have "nearest z < 0" by simp
      with \<open>z < 0\<close> show ?thesis by (simp add: to_double_def)
    qed
  qed
  then show "cf_lt (to_double z) \<longleftrightarrow> z < 0" and "cf_gt (to_double z) \<longleftrightarrow> 0 < z" by simp_all
qed

lemma cf_lt_sub: "on_grid a \<Longrightarrow> on_grid b \<Longrightarrow> cf_lt (js_sub (Finite a) (Finite b)) = (a < b)"
  using to_double_sign(1) [OF on_grid_diff, of a b] by simp

lemma cf_gt_sub: "on_grid a \<Longrightarrow> on_grid b \<Longrightarrow> cf_gt (js_sub (Finite a) (Finite b)) = (b < a)"
  using to_double_sign(2) [OF on_grid_diff, of a b] by simp

text \<open>
  The double returned, given the binade of the exact result and the integer nearest to
  its quotient by the \<open>ulp\<close>; the same for a square root, with the bounds squared.
\<close>

lemma to_double_eval:
  assumes "2 powi b \<le> \<bar>x\<bar>" and "\<bar>x\<bar> < 2 powi (b + 1)" and "- 1022 \<le> b" and "b \<le> 1022"
    and "\<bar>x / 2 powi (b - 52) - of_int n\<bar> < 1 / 2"
  shows "to_double x = Finite (of_int n * 2 powi (b - 52))"
proof -
  have b: "binade x = b" using assms(1,2,3) by (rule binade_eqI)
  then have u: "ulp x = 2 powi (b - 52)" by (simp add: ulp_def)
  from assms(5) have q: "x / ulp x < of_int n + 1 / 2" "of_int n - 1 / 2 < x / ulp x"
    unfolding u by linarith+
  from q(1) have "round_half_even (x / ulp x) \<le> n" by (rule rhe_le)
  moreover from q(2) have "n \<le> round_half_even (x / ulp x)" by (rule rhe_ge)
  ultimately have "round_half_even (x / ulp x) = n" by simp
  then have n: "nearest x = of_int n * 2 powi (b - 52)" by (simp add: nearest_def u)
  have "ulp x / 2 \<le> 2 powi (b + 1)"
  proof -
    have "(2::real) powi (b - 52) \<le> 2 powi (b + 1)" by (rule powi_mono) simp
    with powi_pos [of "b - 52"] show ?thesis unfolding u by linarith
  qed
  with nearest_error [of x] assms(2) have "\<bar>nearest x\<bar> < 2 powi (b + 1) + 2 powi (b + 1)"
    by linarith
  moreover have "(2::real) powi (b + 1 + 1) = 2 powi (b + 1) * 2 powi 1" by (rule powi_add)
  moreover have "(2::real) powi (b + 1 + 1) \<le> 2 powi 1024" using assms(4) by (intro powi_mono) simp
  ultimately have "\<bar>nearest x\<bar> < 2 powi 1024" by simp
  then have "\<bar>nearest x\<bar> < 2 ^ 1024" by simp
  then show ?thesis unfolding n [symmetric] by (rule to_double_Finite)
qed

lemma to_double_sqrt_eval:
  assumes "(2 powi b)\<^sup>2 \<le> v" and "v < (2 powi (b + 1))\<^sup>2" and "- 1022 \<le> b" and "b \<le> 1022"
    and "1 \<le> n"
    and "((of_int n - 1 / 2) * 2 powi (b - 52))\<^sup>2 < v"
    and "v < ((of_int n + 1 / 2) * 2 powi (b - 52))\<^sup>2"
  shows "to_double (sqrt v) = Finite (of_int n * 2 powi (b - 52))"
proof (rule to_double_eval [OF _ _ assms(3,4)])
  have pos: "0 \<le> sqrt v"
    using assms(1) by (simp add: order_trans [OF zero_le_power2])
  from assms(1) have "2 powi b \<le> sqrt v" by (rule real_le_rsqrt)
  with pos show "2 powi b \<le> \<bar>sqrt v\<bar>" by simp
  have "sqrt v < 2 powi (b + 1)"
    using assms(2) powi_pos [of "b + 1"] by (intro real_less_lsqrt) simp_all
  with pos show "\<bar>sqrt v\<bar> < 2 powi (b + 1)" by simp
  have g: "0 < (2::real) powi (b - 52)" by (rule powi_pos)
  have lo: "(of_int n - 1 / 2) * 2 powi (b - 52) < sqrt v"
    using assms(6) by (rule real_less_rsqrt)
  have "0 \<le> (real_of_int n + 1 / 2) * 2 powi (b - 52)" using assms(5) g by simp
  then have hi: "sqrt v < (of_int n + 1 / 2) * 2 powi (b - 52)"
    using assms(7) by (intro real_less_lsqrt)
  from lo hi g have "of_int n - 1 / 2 < sqrt v / 2 powi (b - 52)"
    "sqrt v / 2 powi (b - 52) < of_int n + 1 / 2"
    by (simp_all add: pos_less_divide_eq pos_divide_less_eq)
  then show "\<bar>sqrt v / 2 powi (b - 52) - of_int n\<bar> < 1 / 2" by linarith
qed

subsection \<open>Cosine similarity\<close>

text \<open>Symmetry: the product is commutative, so the loop run on the swapped vectors swaps the norms.\<close>

lemma js_mul_commute: "js_mul x y = js_mul y x"
  by (cases x; cases y) (simp_all add: mult.commute)

lemma cosine_loop_swap:
  "cosine_loop a b (d, na, nb) = (d', na', nb') \<Longrightarrow> cosine_loop b a (d, nb, na) = (d', nb', na')"
proof (induction a arbitrary: b d na nb)
  case Nil
  then show ?case by (cases b) simp_all
next
  case (Cons x xs)
  show ?case
  proof (cases b)
    case Nil
    with Cons.prems show ?thesis by simp
  next
    case (Cons y ys)
    from Cons.prems have "cosine_loop xs ys
        (js_add d (js_mul x y), js_add na (js_mul x x), js_add nb (js_mul y y)) = (d', na', nb')"
      by (simp add: Cons)
    then have "cosine_loop ys xs
        (js_add d (js_mul x y), js_add nb (js_mul y y), js_add na (js_mul x x)) = (d', nb', na')"
      by (rule Cons.IH)
    then show ?thesis by (simp add: Cons js_mul_commute [of y x])
  qed
qed

lemma cosineSimilarity_commute: "cosineSimilarity a b = cosineSimilarity b a"
proof (cases "length a = length b")
  case False
  then show ?thesis by (auto simp: cosineSimilarity_def)
next
  case True
  obtain d na nb where l: "cosine_loop a b (Finite 0, Finite 0, Finite 0) = (d, na, nb)"
    by (cases "cosine_loop a b (Finite 0, Finite 0, Finite 0)")
  from cosine_loop_swap [OF l] True l show ?thesis
    by (simp add: cosineSimilarity_def js_mul_commute [of "js_sqrt na"])
qed

text \<open>
  An all-zero vector: the dot product stays at zero, or becomes \<open>NaN\<close> against a
  non-finite component, and the vector's squared norm stays at zero.
\<close>

lemma js_mul_zero: "js_mul (Finite 0) y = Finite 0 \<or> js_mul (Finite 0) y = NaN"
  by (cases y) simp_all

lemma zero_loop:
  "\<forall>x\<in>set a. x = Finite 0 \<Longrightarrow> d = Finite 0 \<or> d = NaN \<Longrightarrow>
   cosine_loop a b (d, Finite 0, nb) = (d', na', nb') \<Longrightarrow>
   (d' = Finite 0 \<or> d' = NaN) \<and> na' = Finite 0"
proof (induction a arbitrary: b d nb)
  case Nil
  then show ?case by auto
next
  case (Cons x xs)
  show ?case
  proof (cases b)
    case Nil
    with Cons.prems show ?thesis by auto
  next
    case (Cons y ys)
    from Cons.prems(1) have x: "x = Finite 0" and xs: "\<forall>x\<in>set xs. x = Finite 0" by simp_all
    have d: "js_add d (js_mul x y) = Finite 0 \<or> js_add d (js_mul x y) = NaN"
      using Cons.prems(2) js_mul_zero [of y] unfolding x by auto
    from Cons.prems(3) have "cosine_loop xs ys
        (js_add d (js_mul x y), Finite 0, js_add nb (js_mul y y)) = (d', na', nb')"
      by (simp add: Cons x)
    with xs d show ?thesis by (rule Cons.IH)
  qed
qed

lemma cosineSimilarity_zero_left:
  assumes "length a = length b" and "\<forall>x\<in>set a. x = Finite 0"
  shows "cosineSimilarity a b = NaN"
proof -
  obtain d na nb where l: "cosine_loop a b (Finite 0, Finite 0, Finite 0) = (d, na, nb)"
    by (cases "cosine_loop a b (Finite 0, Finite 0, Finite 0)")
  from zero_loop [OF assms(2) _ l] have d: "d = Finite 0 \<or> d = NaN" and na: "na = Finite 0"
    by simp_all
  have "js_mul (js_sqrt na) (js_sqrt nb) = Finite 0 \<or> js_mul (js_sqrt na) (js_sqrt nb) = NaN"
    using js_mul_zero [of "js_sqrt nb"] by (simp add: na)
  with d have "js_div d (js_mul (js_sqrt na) (js_sqrt nb)) = NaN" by auto
  with assms(1) l show ?thesis by (simp add: cosineSimilarity_def)
qed

text \<open>A vector against itself: the three sums of the loop are the same number.\<close>

lemma cosine_loop_self:
  "cosine_loop a a (s, s, s) =
     (foldl (\<lambda>sum x. js_add sum (js_mul x x)) s a,
      foldl (\<lambda>sum x. js_add sum (js_mul x x)) s a,
      foldl (\<lambda>sum x. js_add sum (js_mul x x)) s a)"
  by (induction a arbitrary: s) simp_all

lemma cosineSimilarity_self:
  "cosineSimilarity a a =
     js_div (squared_norm a) (js_mul (js_sqrt (squared_norm a)) (js_sqrt (squared_norm a)))"
  by (simp add: cosineSimilarity_def cosine_loop_self squared_norm_def)

text \<open>
  The rounded square root of a positive double, its rounded square, and the rounded
  quotient of the double by that square: within \<open>1 / 2 ^ 49\<close> of 1, and with no overflow
  on the way.
\<close>

lemma sqrt_grid_lower:
  assumes "0 < v" and "v = of_int k * 2 powi (- 1074)"
  shows "2 powi (- 537) \<le> sqrt v"
proof -
  have "0 < real_of_int k"
    using assms powi_pos [of "- 1074"] by (simp add: zero_less_mult_iff)
  then have "1 \<le> k" by simp
  then have "real_of_int 1 \<le> of_int k" by (simp only: of_int_le_iff)
  then have "1 * 2 powi (- 1074) \<le> of_int k * (2::real) powi (- 1074)"
    using powi_pos [of "- 1074"] by (intro mult_right_mono) simp_all
  then have "(2::real) powi (- 1074) \<le> v" by (simp add: assms(2))
  moreover have "((2::real) powi (- 537))\<^sup>2 = 2 powi (- 1074)"
    using powi_add [of "- 537" "- 537"] by (simp add: power2_eq_square)
  ultimately have "((2::real) powi (- 537))\<^sup>2 \<le> v" by simp
  then show ?thesis by (rule real_le_rsqrt)
qed

lemma sqrt_below_midpoint:
  assumes "v \<le> 2 ^ 1024 - 2 ^ 971"
  shows "sqrt v < (of_int (2 ^ 53 - 1) + 1 / 2) * 2 powi (511 - 52)"
proof (rule real_less_lsqrt)
  show "0 \<le> (real_of_int (2 ^ 53 - 1) + 1 / 2) * 2 powi (511 - 52)" by simp
  have "(2 ^ 1024 - 2 ^ 971 :: real) < ((real_of_int (2 ^ 53 - 1) + 1 / 2) * 2 powi (511 - 52))\<^sup>2"
    by (simp add: power2_eq_square)
  with assms show "v < ((real_of_int (2 ^ 53 - 1) + 1 / 2) * 2 powi (511 - 52))\<^sup>2" by linarith
qed

lemma sqrt_rounded:
  assumes "0 < v" and "v = of_int k * 2 powi (- 1074)" and "v \<le> 2 ^ 1024 - 2 ^ 971"
  shows "to_double (sqrt v) = Finite (nearest (sqrt v))"
    and "2 powi (- 537) \<le> nearest (sqrt v)"
    and "nearest (sqrt v) \<le> (2 ^ 53 - 1) * 2 ^ 459"
    and "\<bar>nearest (sqrt v) - sqrt v\<bar> \<le> sqrt v / 2 ^ 53"
proof -
  have low: "2 powi (- 537) \<le> sqrt v" using assms(1,2) by (rule sqrt_grid_lower)
  have pos: "0 \<le> sqrt v" using assms(1) by simp
  then have nn: "0 \<le> nearest (sqrt v)" by (rule nearest_nonneg)
  have "\<bar>sqrt v\<bar> < (of_int (2 ^ 53 - 1) + 1 / 2) * 2 powi (511 - 52)"
    using sqrt_below_midpoint [OF assms(3)] pos by simp
  then have "\<bar>nearest (sqrt v)\<bar> \<le> of_int (2 ^ 53 - 1) * 2 powi (511 - 52)"
    by (rule nearest_abs_le) simp_all
  then have up: "\<bar>nearest (sqrt v)\<bar> \<le> (2 ^ 53 - 1) * 2 ^ 459" by simp
  then show "nearest (sqrt v) \<le> (2 ^ 53 - 1) * 2 ^ 459" by linarith
  have "((2 ^ 53 - 1) * 2 ^ 459 :: real) < 2 ^ 1024" by simp
  with up have "\<bar>nearest (sqrt v)\<bar> < 2 ^ 1024" by linarith
  then show "to_double (sqrt v) = Finite (nearest (sqrt v))" by (rule to_double_Finite)
  from low pos have "2 powi (- 537) \<le> \<bar>sqrt v\<bar>" by simp
  then have "2 powi (- 537) \<le> \<bar>nearest (sqrt v)\<bar>" by (rule nearest_abs_ge) simp
  with nn show "2 powi (- 537) \<le> nearest (sqrt v)" by simp
  have "(2::real) powi (- 1022) \<le> 2 powi (- 537)" by (rule powi_mono) simp
  with low pos have "2 powi (- 1022) \<le> \<bar>sqrt v\<bar>" by linarith
  then have "ulp (sqrt v) \<le> \<bar>sqrt v\<bar> / 2 ^ 52" by (rule ulp_normal)
  with nearest_error [of "sqrt v"] pos
  show "\<bar>nearest (sqrt v) - sqrt v\<bar> \<le> sqrt v / 2 ^ 53" by simp
qed

lemma square_error:
  assumes "0 < (s::real)" and "\<bar>r - s\<bar> \<le> s / 2 ^ 53"
  shows "\<bar>r * r - s * s\<bar> \<le> s * s * 3 / 2 ^ 53" and "0 < r"
proof -
  have "s / 2 ^ 53 < s" using assms(1) by simp
  with assms(2) show r: "0 < r" by linarith
  have "s / 2 ^ 53 \<le> s" using assms(1) by simp
  with assms(2) r have sum: "\<bar>r + s\<bar> \<le> 3 * s" by linarith
  have "r * r - s * s = (r - s) * (r + s)" by (simp add: algebra_simps)
  then have "\<bar>r * r - s * s\<bar> = \<bar>r - s\<bar> * \<bar>r + s\<bar>" by (simp add: abs_mult)
  also have "\<dots> \<le> s / 2 ^ 53 * (3 * s)"
    using assms sum by (intro mult_mono) simp_all
  finally show "\<bar>r * r - s * s\<bar> \<le> s * s * 3 / 2 ^ 53" by (simp add: algebra_simps)
qed

lemma grid_eq:
  assumes "0 < (g::real)" and "d = of_int m * g" and "v = of_int k * g" and "\<bar>d - v\<bar> < g"
  shows "d = v"
proof -
  have "d - v = of_int (m - k) * g"
    by (simp add: assms(2,3) algebra_simps)
  then have "\<bar>d - v\<bar> = real_of_int \<bar>m - k\<bar> * g"
    using assms(1) by (simp add: abs_mult)
  with assms(4) have "real_of_int \<bar>m - k\<bar> * g < 1 * g" by simp
  then have "real_of_int \<bar>m - k\<bar> < 1"
    using assms(1) by (simp only: mult_less_cancel_right_pos)
  then have "\<bar>m - k\<bar> < 1" by linarith
  then have "m = k" by simp
  then show ?thesis by (simp add: assms(2,3))
qed

lemma product_rounded:
  assumes "0 < (r::real)" and "r \<le> (2 ^ 53 - 1) * 2 ^ 459"
  shows "to_double (r * r) = Finite (nearest (r * r))"
proof -
  have "r * r \<le> ((2 ^ 53 - 1) * 2 ^ 459) * ((2 ^ 53 - 1) * 2 ^ 459)"
    using assms by (intro mult_mono) simp_all
  also have "\<dots> < (of_int (2 ^ 53 - 1) + 1 / 2) * 2 powi (1023 - 52)" by simp
  finally have "\<bar>r * r\<bar> < (of_int (2 ^ 53 - 1) + 1 / 2) * 2 powi (1023 - 52)" by simp
  then have "\<bar>nearest (r * r)\<bar> \<le> of_int (2 ^ 53 - 1) * 2 powi (1023 - 52)"
    by (rule nearest_abs_le) simp_all
  moreover have "real_of_int (2 ^ 53 - 1) * 2 powi (1023 - 52) < 2 ^ 1024" by simp
  ultimately have "\<bar>nearest (r * r)\<bar> < 2 ^ 1024" by linarith
  then show ?thesis by (rule to_double_Finite)
qed

lemma quotient_rounded:
  assumes "0 < (v::real)" and "\<bar>d - v\<bar> \<le> v * 7 / 2 ^ 53"
  shows "\<exists>q. to_double (v / d) = Finite q \<and> \<bar>q - 1\<bar> \<le> 1 / 2 ^ 49" and "d \<noteq> 0"
proof -
  define c :: real where "c = 1 / 2 ^ 53"
  have c: "0 < c" "c \<le> 1 / 64" "1 / 2 ^ 49 = 16 * c" by (simp_all add: c_def)
  have a2: "\<bar>d - v\<bar> \<le> 7 * (v * c)" using assms(2) by (simp add: c_def)
  have "v * c < v / 7" using assms(1) by (simp add: c_def)
  with a2 have dpos: "0 < d" by linarith
  then show "d \<noteq> 0" by simp
  have "7 * (v * c) + 56 * c * (v * c) \<le> 8 * (v * c)"
  proof -
    have "56 * c \<le> 1" using c(2) by linarith
    moreover have "0 \<le> v * c" using assms(1) c(1) by simp
    ultimately have "56 * c * (v * c) \<le> 1 * (v * c)" by (rule mult_right_mono)
    then show ?thesis by linarith
  qed
  then have "7 * (v * c) \<le> 8 * c * (v - 7 * (v * c))" by (simp add: algebra_simps)
  also have "\<dots> \<le> 8 * c * d"
  proof (rule mult_left_mono)
    show "v - 7 * (v * c) \<le> d" using a2 by linarith
    show "0 \<le> 8 * c" using c(1) by simp
  qed
  finally have "\<bar>v - d\<bar> \<le> 8 * c * d" using a2 by linarith
  then have "\<bar>v - d\<bar> / d \<le> 8 * c" using dpos by (simp add: pos_divide_le_eq)
  moreover have "v / d - 1 = (v - d) / d" using dpos by (simp add: diff_divide_distrib)
  ultimately have t: "\<bar>v / d - 1\<bar> \<le> 8 * c" using dpos by simp
  define t where "t = v / d"
  from t have t1: "\<bar>t - 1\<bar> \<le> 8 * c" by (simp only: t_def)
  with c(2) have tl: "1 / 2 \<le> t" and tu: "t \<le> 2" by linarith+
  have "(2::real) powi (- 1022) \<le> 2 powi (- 1)" by (rule powi_mono) simp
  then have "(2::real) powi (- 1022) \<le> 1 / 2" by simp
  with tl have "2 powi (- 1022) \<le> \<bar>t\<bar>" by linarith
  then have "ulp t \<le> \<bar>t\<bar> / 2 ^ 52" by (rule ulp_normal)
  moreover have "\<bar>t\<bar> / 2 ^ 52 = 2 * (t * c)" using tl by (simp add: c_def)
  moreover have "t * c \<le> 2 * c" using tu c(1) by simp
  ultimately have "ulp t / 2 \<le> 2 * c" by linarith
  with nearest_error [of t] have e: "\<bar>nearest t - t\<bar> \<le> 2 * c" by linarith
  with t1 c have q: "\<bar>nearest t - 1\<bar> \<le> 1 / 2 ^ 49" by linarith
  have "(1::real) / 2 ^ 49 \<le> 1" by simp
  with q have "\<bar>nearest t\<bar> \<le> 2" by linarith
  moreover have "(2::real) < 2 ^ 1024" by simp
  ultimately have "\<bar>nearest t\<bar> < 2 ^ 1024" by linarith
  then have "to_double t = Finite (nearest t)" by (rule to_double_Finite)
  with q show "\<exists>q. to_double (v / d) = Finite q \<and> \<bar>q - 1\<bar> \<le> 1 / 2 ^ 49"
    unfolding t_def by blast
qed

lemma self_quotient:
  assumes "0 < v" and "v = of_int k * 2 powi (- 1074)" and "v \<le> 2 ^ 1024 - 2 ^ 971"
  shows "\<exists>q. js_div (Finite v) (js_mul (js_sqrt (Finite v)) (js_sqrt (Finite v))) = Finite q \<and>
             \<bar>q - 1\<bar> \<le> 1 / 2 ^ 49"
proof -
  define s where "s = sqrt v"
  define r where "r = nearest s"
  define p where "p = r * r"
  define d where "d = nearest p"
  define c :: real where "c = 1 / 2 ^ 53"
  define g :: real where "g = 2 powi (- 1074)"
  have c: "0 < c" "c \<le> 1 / 64" by (simp_all add: c_def)
  have g: "0 < g" unfolding g_def by (rule powi_pos)
  have s: "0 < s" "s * s = v" using assms(1) by (simp_all add: s_def)
  note sr = sqrt_rounded [OF assms, folded s_def r_def]
  have rs: "\<bar>r - s\<bar> \<le> s / 2 ^ 53" by (rule sr(4))
  have sq: "js_sqrt (Finite v) = Finite r"
    using assms(1) sr(1) by (simp add: s_def)
  note se = square_error [OF s(1) rs]
  have r: "0 < r" by (rule se(2))
  have pv: "\<bar>p - v\<bar> \<le> 3 * (v * c)"
    using se(1) unfolding s(2) p_def c_def by simp
  have ppos: "0 < p" using r by (simp add: p_def)
  have mul: "js_mul (Finite r) (Finite r) = Finite d"
    using product_rounded [OF r sr(3)] by (simp add: d_def p_def)
  have dp: "\<bar>d - p\<bar> \<le> ulp p / 2" unfolding d_def by (rule nearest_error)
  have vc: "v * c \<le> v / 64" using assms(1) c(2) by (simp add: field_simps)
  have p2: "p \<le> 2 * v" using pv vc assms(1) by linarith
  have dv: "d = v \<or> \<bar>d - v\<bar> \<le> v * 7 / 2 ^ 53"
  proof (cases "v \<le> 2 powi (- 1024)")
    case True
    have g4: "(2::real) powi (- 1024) = 2 ^ 50 * g"
      unfolding g_def using powi_add [of 50 "- 1074"] by simp
    have g2: "(2::real) powi (- 1022) = 2 ^ 52 * g"
      unfolding g_def using powi_add [of 52 "- 1074"] by simp
    have "\<bar>p\<bar> < 2 powi (- 1022)" using p2 True ppos g unfolding g4 g2 by simp
    with ppos have "ulp p = g" unfolding g_def by (intro ulp_subnormal) simp_all
    with dp have 1: "\<bar>d - p\<bar> \<le> g / 2" by simp
    have "v * c \<le> 2 ^ 50 * g * c" using True c(1) unfolding g4 by simp
    also have "\<dots> = g / 8" by (simp add: c_def)
    finally have "3 * (v * c) \<le> 3 * g / 8" by linarith
    with pv 1 g have "\<bar>d - v\<bar> < g" by linarith
    moreover obtain m where "d = of_int m * g"
      using nearest_grid [of p] unfolding d_def g_def by blast
    moreover have "v = of_int k * g" unfolding g_def by (rule assms(2))
    ultimately have "d = v" using g by (intro grid_eq [of g d m v k])
    then show ?thesis ..
  next
    case False
    then have big: "2 powi (- 1024) < v" by simp
    have "ulp p / 2 \<le> 4 * (v * c)"
    proof (cases "2 powi (- 1022) \<le> \<bar>p\<bar>")
      case True
      then have "ulp p \<le> \<bar>p\<bar> / 2 ^ 52" by (rule ulp_normal)
      moreover have "\<bar>p\<bar> / 2 ^ 52 = 2 * (p * c)" using ppos by (simp add: c_def)
      moreover have "p * c \<le> 2 * v * c" using p2 c(1) by simp
      then have "p * c \<le> 2 * (v * c)" by simp
      moreover have "0 \<le> v * c" using assms(1) c(1) by simp
      ultimately show ?thesis by linarith
    next
      case False
      with ppos have "ulp p = 2 powi (- 1074)" by (intro ulp_subnormal) simp_all
      moreover have "(2::real) powi (- 1074) / 2 = 4 * (2 powi (- 1024) * c)"
        unfolding c_def using powi_add [of "- 1024" "- 50"] by simp
      moreover have "2 powi (- 1024) * c < v * c" using big c(1) by simp
      ultimately show ?thesis by linarith
    qed
    with dp pv have "\<bar>d - v\<bar> \<le> 7 * (v * c)" by linarith
    then have "\<bar>d - v\<bar> \<le> v * 7 / 2 ^ 53" by (simp add: c_def)
    then show ?thesis ..
  qed
  then have "\<bar>d - v\<bar> \<le> v * 7 / 2 ^ 53" using assms(1) by auto
  from quotient_rounded [OF assms(1) this] sq mul show ?thesis by simp
qed

text \<open>
  The squared norm is not negative, and when it is finite and not zero it is a double:
  the result of the last addition.
\<close>

lemma nonneg_to_double: "0 \<le> x \<Longrightarrow> nonneg (to_double x)"
  using to_double_nonneg [of x] by auto

lemma nonneg_square: "nonneg (js_mul x x)"
  by (cases x) (simp_all add: nonneg_to_double)

lemma nonneg_add: "nonneg x \<Longrightarrow> nonneg y \<Longrightarrow> nonneg (js_add x y)"
  by (cases x; cases y) (simp_all add: nonneg_to_double)

lemma nonneg_fold:
  "nonneg s \<Longrightarrow> nonneg (foldl (\<lambda>sum x. js_add sum (js_mul x x)) s a)"
  by (induction a arbitrary: s) (simp_all add: nonneg_add nonneg_square)

lemma nonneg_squared_norm: "nonneg (squared_norm a)"
  unfolding squared_norm_def by (rule nonneg_fold) simp

lemma js_add_Finite:
  "js_add s m = Finite v \<Longrightarrow> \<exists>p q. s = Finite p \<and> m = Finite q \<and> to_double (p + q) = Finite v"
  by (cases s; cases m) simp_all

lemma squared_norm_double:
  "squared_norm a = Finite v \<Longrightarrow> v = 0 \<or> (\<exists>x. to_double x = Finite v)"
proof (induction a arbitrary: v rule: rev_induct)
  case Nil
  then show ?case by (simp add: squared_norm_def)
next
  case (snoc x xs)
  then have "js_add (squared_norm xs) (js_mul x x) = Finite v"
    by (simp add: squared_norm_def)
  from js_add_Finite [OF this] show ?case by blast
qed

lemma cosineSimilarity_self_finite:
  assumes "squared_norm a = Finite v" and "v \<noteq> 0"
  shows "\<exists>q. cosineSimilarity a a = Finite q \<and> \<bar>q - 1\<bar> \<le> 1 / 2 ^ 49"
proof -
  from nonneg_squared_norm [of a] assms have pos: "0 < v" by simp
  from squared_norm_double [OF assms(1)] assms(2) obtain x where x: "to_double x = Finite v"
    by blast
  from to_double_FiniteD [OF x] nearest_grid [of x] obtain k where
    k: "v = of_int k * 2 powi (- 1074)" by auto
  from to_double_bound [OF x] pos have "v \<le> 2 ^ 1024 - 2 ^ 971" by simp
  from self_quotient [OF pos k this] show ?thesis
    by (simp only: cosineSimilarity_self assms(1))
qed

lemma cosineSimilarity_self_NaN:
  assumes "squared_norm a = Finite 0 \<or> squared_norm a = PosInfinity \<or>
           squared_norm a = NegInfinity \<or> squared_norm a = NaN"
  shows "cosineSimilarity a a = NaN"
  using assms by (auto simp: cosineSimilarity_self)

lemma js_equals_refl: "js_equals x x = (x \<noteq> NaN)"
  by (cases x) simp_all

lemma overflow_square: "to_double (2 ^ 600 * 2 ^ 600) = PosInfinity"
proof -
  have "(2::real) ^ 1024 \<le> \<bar>2 ^ 600 * 2 ^ 600\<bar>" by simp
  from to_double_overflow [OF this] show ?thesis by simp
qed

lemma underflow_square: "to_double (1 / 2 ^ 600 * (1 / 2 ^ 600)) = Finite 0"
proof (rule to_double_underflow)
  have "(2::real) powi (- 1075) = 1 / 2 ^ 1075" by (simp add: power_int_minus_divide)
  then show "\<bar>1 / 2 ^ 600 * (1 / 2 ^ 600)\<bar> < (2::real) powi (- 1075)" by simp
qed

text \<open>
  C6, as stated, fails: a vector with non-zero components whose squares overflow, or
  underflow to zero, has the self-similarity \<open>NaN\<close> (infinity by infinity, zero by zero),
  not a number close to 1; and where the similarity is \<open>NaN\<close>, as it is against an
  all-zero vector, the two orders of the arguments do not compare equal.
\<close>

theorem cosineSimilarity_self_counterexample:
  "Finite (2 ^ 600) \<noteq> Finite 0 \<and>
   cosineSimilarity [Finite (2 ^ 600), Finite (2 ^ 600)] [Finite (2 ^ 600), Finite (2 ^ 600)] = NaN \<and>
   Finite (1 / 2 ^ 600) \<noteq> Finite 0 \<and>
   cosineSimilarity [Finite (1 / 2 ^ 600), Finite (1 / 2 ^ 600)]
     [Finite (1 / 2 ^ 600), Finite (1 / 2 ^ 600)] = NaN \<and>
   \<not> js_equals (cosineSimilarity [Finite 0] [Finite 1]) (cosineSimilarity [Finite 1] [Finite 0])"
proof -
  have 3: "cosineSimilarity [Finite 0] [Finite 1] = NaN"
    by (rule cosineSimilarity_zero_left) simp_all
  have big: "js_mul (Finite (2 ^ 600)) (Finite (2 ^ 600)) = PosInfinity"
    by (simp only: js_mul.simps overflow_square)
  have small: "js_mul (Finite (1 / 2 ^ 600)) (Finite (1 / 2 ^ 600)) = Finite 0"
    by (simp only: js_mul.simps underflow_square)
  have "squared_norm [Finite (2 ^ 600), Finite (2 ^ 600)] = PosInfinity"
    by (simp only: squared_norm_def foldl.simps big js_add.simps)
  then have 1: "cosineSimilarity [Finite (2 ^ 600), Finite (2 ^ 600)]
                  [Finite (2 ^ 600), Finite (2 ^ 600)] = NaN"
    by (simp only: cosineSimilarity_self js_sqrt.simps js_mul.simps js_div.simps)
  have "squared_norm [Finite (1 / 2 ^ 600), Finite (1 / 2 ^ 600)] = Finite 0"
    by (simp only: squared_norm_def foldl.simps small js_add.simps add_0_left to_double_0)
  then have 2: "cosineSimilarity [Finite (1 / 2 ^ 600), Finite (1 / 2 ^ 600)]
                  [Finite (1 / 2 ^ 600), Finite (1 / 2 ^ 600)] = NaN"
    by (simp add: cosineSimilarity_self)
  from 1 2 3 show ?thesis by simp
qed

text \<open>
  C6, amended. \<open>cosineSimilarity\<close> gives the same value for the two orders of its
  arguments, and the two compare equal in JavaScript unless that value is \<open>NaN\<close>; on
  vectors of different lengths it returns 0 and does not throw; and the self-similarity
  of a vector is within \<open>1 / 2 ^ 49\<close> of 1 when its squared norm, as the loop computes
  it, is finite and not zero, and \<open>NaN\<close> in every other case (squared norm zero,
  infinite or \<open>NaN\<close>).
\<close>

theorem cosineSimilarity_symmetric_near_unit_mismatch:
  "cosineSimilarity a b = cosineSimilarity b a \<and>
   js_equals (cosineSimilarity a b) (cosineSimilarity b a) = (cosineSimilarity a b \<noteq> NaN) \<and>
   (length a \<noteq> length b \<longrightarrow> cosineSimilarity a b = Finite 0) \<and>
   (case squared_norm a of
      Finite v \<Rightarrow>
        if v = 0 then cosineSimilarity a a = NaN
        else \<exists>q. cosineSimilarity a a = Finite q \<and> \<bar>q - 1\<bar> \<le> 1 / 2 ^ 49
    | _ \<Rightarrow> cosineSimilarity a a = NaN)"
proof (intro conjI)
  show "cosineSimilarity a b = cosineSimilarity b a" by (rule cosineSimilarity_commute)
  show "js_equals (cosineSimilarity a b) (cosineSimilarity b a) = (cosineSimilarity a b \<noteq> NaN)"
    by (simp only: cosineSimilarity_commute [of b a] js_equals_refl)
  show "length a \<noteq> length b \<longrightarrow> cosineSimilarity a b = Finite 0"
    by (simp add: cosineSimilarity_def)
  show "case squared_norm a of
      Finite v \<Rightarrow>
        if v = 0 then cosineSimilarity a a = NaN
        else \<exists>q. cosineSimilarity a a = Finite q \<and> \<bar>q - 1\<bar> \<le> 1 / 2 ^ 49
    | _ \<Rightarrow> cosineSimilarity a a = NaN"
  proof (cases "squared_norm a")
    case (Finite v)
    show ?thesis
    proof (cases "v = 0")
      case True
      with Finite cosineSimilarity_self_NaN [of a] show ?thesis by simp
    next
      case False
      with Finite cosineSimilarity_self_finite [of a v] show ?thesis by simp
    qed
  qed (use cosineSimilarity_self_NaN [of a] in simp_all)
qed

lemma sqrt_16: "sqrt 16 = 4"
  using real_sqrt_abs [of 4] by simp

lemma squared_norm_3_4: "squared_norm [Finite 3, Finite 4] = Finite 25"
  by (simp add: squared_norm_def to_double_numeral)

theorem cosineSimilarity_symmetric_near_unit_mismatch_witness:
  "length [Finite 3, Finite 4] \<noteq> length [Finite 1] \<and>
   cosineSimilarity [Finite 3, Finite 4] [Finite 1] = Finite 0 \<and>
   cosineSimilarity [Finite 1] [Finite 3, Finite 4] = Finite 0 \<and>
   js_equals (cosineSimilarity [Finite 3, Finite 4] [Finite 1])
     (cosineSimilarity [Finite 1] [Finite 3, Finite 4]) \<and>
   squared_norm [Finite 3, Finite 4] = Finite 25 \<and>
   (\<exists>q. cosineSimilarity [Finite 3, Finite 4] [Finite 3, Finite 4] = Finite q \<and>
        \<bar>q - 1\<bar> \<le> 1 / 2 ^ 49)"
  using cosineSimilarity_symmetric_near_unit_mismatch [of "[Finite 3, Finite 4]" "[Finite 1]"]
  by (auto simp: squared_norm_3_4)

text \<open>
  The rounding shows on \<open>[1, 1]\<close>: its self-similarity is \<open>1 - 1 / 2 ^ 52\<close>, printed
  \<open>0.9999999999999998\<close>. The square root of 2 rounds up, its square rounds to the double
  above 2, and the quotient rounds to the double below 1.
\<close>

lemma sqrt_2_rounded: "to_double (sqrt 2) = Finite (6369051672525773 / 2 ^ 52)"
  using to_double_sqrt_eval [of 0 2 6369051672525773]
  by (simp add: power2_eq_square power_int_minus_divide)

lemma sqrt_2_squared:
  "to_double (6369051672525773 / 2 ^ 52 * (6369051672525773 / 2 ^ 52)) = Finite (2 + 1 / 2 ^ 51)"
  using to_double_eval [of 1 "6369051672525773 / 2 ^ 52 * (6369051672525773 / 2 ^ 52)" 4503599627370497]
  by (simp add: power_int_minus_divide)

lemma two_by_square: "to_double (2 / (2 + 1 / 2 ^ 51)) = Finite (1 - 1 / 2 ^ 52)"
  using to_double_eval [of "- 1" "2 / (2 + 1 / 2 ^ 51)" 9007199254740990]
  by (simp add: power_int_minus_divide)

lemma squared_norm_ones: "squared_norm [Finite 1, Finite 1] = Finite 2"
  by (simp add: squared_norm_def to_double_numeral)

lemma cosineSimilarity_ones:
  "cosineSimilarity [Finite 1, Finite 1] [Finite 1, Finite 1] = Finite (1 - 1 / 2 ^ 52)"
proof -
  have "js_sqrt (Finite 2) = Finite (6369051672525773 / 2 ^ 52)"
    by (simp add: sqrt_2_rounded)
  moreover have "js_mul (Finite (6369051672525773 / 2 ^ 52)) (Finite (6369051672525773 / 2 ^ 52)) =
      Finite (2 + 1 / 2 ^ 51)"
    by (simp only: js_mul.simps sqrt_2_squared)
  moreover have "js_div (Finite 2) (Finite (2 + 1 / 2 ^ 51)) = Finite (1 - 1 / 2 ^ 52)"
    using two_by_square by simp
  ultimately show ?thesis by (simp only: cosineSimilarity_self squared_norm_ones)
qed

text \<open>
  C10. When the two vectors have the same length and one of them has only zero
  components (the empty vector included), \<open>cosineSimilarity\<close> returns \<open>NaN\<close>, which is
  no real number in \<open>[-1, 1]\<close>: the division by a zero denominator is not guarded.
  Vectors of different lengths are guarded and give 0.
\<close>

theorem cosineSimilarity_zero_vector_NaN:
  "(length a = length b \<and> ((\<forall>x\<in>set a. x = Finite 0) \<or> (\<forall>x\<in>set b. x = Finite 0)) \<longrightarrow>
      cosineSimilarity a b = NaN) \<and>
   (cosineSimilarity a b = NaN \<longrightarrow>
      \<not> (\<exists>r. cosineSimilarity a b = Finite r \<and> - 1 \<le> r \<and> r \<le> 1)) \<and>
   (length a \<noteq> length b \<longrightarrow> cosineSimilarity a b = Finite 0)"
proof (intro conjI impI)
  assume h: "length a = length b \<and> ((\<forall>x\<in>set a. x = Finite 0) \<or> (\<forall>x\<in>set b. x = Finite 0))"
  then have len: "length a = length b" by simp
  from h have "(\<forall>x\<in>set a. x = Finite 0) \<or> (\<forall>x\<in>set b. x = Finite 0)" by simp
  then show "cosineSimilarity a b = NaN"
  proof
    assume "\<forall>x\<in>set a. x = Finite 0"
    with len show ?thesis by (rule cosineSimilarity_zero_left)
  next
    assume "\<forall>x\<in>set b. x = Finite 0"
    with len [symmetric] have "cosineSimilarity b a = NaN" by (rule cosineSimilarity_zero_left)
    then show ?thesis by (simp only: cosineSimilarity_commute [of a b])
  qed
next
  assume "cosineSimilarity a b = NaN"
  then show "\<not> (\<exists>r. cosineSimilarity a b = Finite r \<and> - 1 \<le> r \<and> r \<le> 1)" by simp
next
  assume "length a \<noteq> length b"
  then show "cosineSimilarity a b = Finite 0" by (simp add: cosineSimilarity_def)
qed

theorem cosineSimilarity_zero_vector_NaN_witness:
  "length [Finite 0, Finite 0] = length [Finite 3, Finite 4] \<and>
   list_all (\<lambda>x. x = Finite 0) [Finite 0, Finite 0] \<and>
   cosineSimilarity [Finite 0, Finite 0] [Finite 3, Finite 4] = NaN \<and>
   \<not> (\<exists>r. cosineSimilarity [Finite 0, Finite 0] [Finite 3, Finite 4] = Finite r \<and> - 1 \<le> r \<and> r \<le> 1) \<and>
   length [Finite 3, Finite 4] \<noteq> length [Finite 1] \<and>
   cosineSimilarity [Finite 3, Finite 4] [Finite 1] = Finite 0"
  using cosineSimilarity_zero_vector_NaN [of "[Finite 0, Finite 0]" "[Finite 3, Finite 4]"]
    cosineSimilarity_zero_vector_NaN [of "[Finite 3, Finite 4]" "[Finite 1]"]
  by auto

subsection \<open>processPDF\<close>

text \<open>
  C7. \<open>processPDF\<close> calls pdf-parse first, pdf2json only when pdf-parse threw, and
  pdfjs-dist only when both threw (the second component lists the calls). The document
  of the first method that succeeds is returned and the earlier errors do not reach the
  caller. When all three throw, one error is thrown: its message says that the PDF may be
  image-based, encrypted, or corrupted, and ends with the message of the last error (with
  \<open>Unknown error\<close> when what pdfjs-dist threw is not an \<open>Error\<close>).
\<close>

theorem processPDF_fallback_chain:
  "(\<forall>d. A buf name = Inr d \<longrightarrow> processPDF A B C buf name = (Inr d, [PDFParse])) \<and>
   (\<forall>e1 d. A buf name = Inl e1 \<and> B buf name = Inr d \<longrightarrow>
      processPDF A B C buf name = (Inr d, [PDFParse, PDF2JSON])) \<and>
   (\<forall>e1 e2 d. A buf name = Inl e1 \<and> B buf name = Inl e2 \<and> C buf name = Inr d \<longrightarrow>
      processPDF A B C buf name = (Inr d, [PDFParse, PDF2JSON, PDFJSDist])) \<and>
   (\<forall>e1 e2 e3. A buf name = Inl e1 \<and> B buf name = Inl e2 \<and> C buf name = Inl e3 \<longrightarrow>
      processPDF A B C buf name =
        (Inl (Error (js ''Failed to extract text from PDF. Tried 3 different methods. The PDF may be image-based, encrypted, or corrupted. Last error: ''
                     @ message_or (js ''Unknown error'') e3)),
         [PDFParse, PDF2JSON, PDFJSDist])) \<and>
   (\<exists>e. processPDF A B C buf name = (Inl e, [PDFParse, PDF2JSON, PDFJSDist])) =
     (isl (A buf name) \<and> isl (B buf name) \<and> isl (C buf name))"
  by (auto simp: processPDF_def split: sum.splits)

theorem processPDF_fallback_chain_witness:
  "processPDF (\<lambda>b n. Inl (Error (js ''bad xref''))) (\<lambda>b n. Inl NonError) (\<lambda>b n. Inr sample_doc)
     [37, 80] (js ''a.pdf'') = (Inr sample_doc, [PDFParse, PDF2JSON, PDFJSDist]) \<and>
   processPDF (\<lambda>b n. Inl (Error (js ''bad xref''))) (\<lambda>b n. Inl NonError)
     (\<lambda>b n. Inl (Error (js ''no text'')))
     [37, 80] (js ''a.pdf'') =
     (Inl (Error (js ''Failed to extract text from PDF. Tried 3 different methods. The PDF may be image-based, encrypted, or corrupted. Last error: '' @ js ''no text'')),
      [PDFParse, PDF2JSON, PDFJSDist])"
  using processPDF_fallback_chain
          [of "\<lambda>b n. Inl (Error (js ''bad xref''))" "[37, 80]" "js ''a.pdf''"
              "\<lambda>b n. Inl NonError" "\<lambda>b n. Inr sample_doc"]
        processPDF_fallback_chain
          [of "\<lambda>b n. Inl (Error (js ''bad xref''))" "[37, 80]" "js ''a.pdf''"
              "\<lambda>b n. Inl NonError" "\<lambda>b n. Inl (Error (js ''no text''))"]
  by simp

subsection \<open>Chat route\<close>

text \<open>
  C8. When \<open>getCount\<close> returns 0 for the owner, the answer is the fixed message asking to
  upload documents first, and no call to the embedding model or to the completion model
  is made; the same holds of \<open>POST\<close> for an authenticated user and a non-empty message.
\<close>

theorem answer_empty_corpus_short_circuit:
  assumes "getCount db userId = Inr 0"
  shows "answer engine db embedContent generateContent message userId = (Inr guidance, []) \<and>
         (message \<noteq> [] \<longrightarrow>
            POST engine (Inr \<lparr>user = Some userId, authError = None\<rparr>) (Inr (JSString message)) db
              embedContent generateContent = (guidance, []))"
  using assms by (simp add: answer_def POST_def guidance_def)

theorem answer_empty_corpus_short_circuit_witness:
  "getCount empty_store (js ''u1'') = Inr 0 \<and>
   answer (\<lambda>c xs. xs) empty_store (\<lambda>t. Inr (EmbeddingArray [Finite 1, Finite 0])) (\<lambda>p. Inr (js ''ok''))
     (js ''hours?'') (js ''u1'') = (Inr guidance, []) \<and>
   POST (\<lambda>c xs. xs) (Inr \<lparr>user = Some (js ''u1''), authError = None\<rparr>)
     (Inr (JSString (js ''hours?''))) empty_store (\<lambda>t. Inr (EmbeddingArray [Finite 1, Finite 0]))
     (\<lambda>p. Inr (js ''ok'')) = (guidance, [])"
proof -
  have h: "getCount empty_store (js ''u1'') = Inr 0"
    by (simp add: getCount_def select_count_eq_def empty_store_def)
  have "js ''hours?'' \<noteq> []" by (simp add: js_def)
  with h answer_empty_corpus_short_circuit [OF h, of "\<lambda>c xs. xs" "\<lambda>t. Inr (EmbeddingArray [Finite 1, Finite 0])"
      "\<lambda>p. Inr (js ''ok'')" "js ''hours?''"]
  show ?thesis by simp
qed

subsection \<open>Read failures\<close>

text \<open>
  C9, as stated, fails: with a store whose reads fail, \<open>getCount\<close> returns 0,
  \<open>getAllDocuments\<close> returns the empty list and so does \<open>search\<close> through its fallback;
  none of them throws.
\<close>

theorem read_failure_counterexample:
  "read_error failing_store = Some (js ''connection refused'') \<and>
   getCount failing_store (js ''u1'') = Inr 0 \<and>
   getAllDocuments failing_store (js ''u1'') = Inr [] \<and>
   searchWithDirectQuery (\<lambda>c xs. xs) failing_store [Finite 1, Finite 0] 5 (js ''u1'') = Inr [] \<and>
   search (\<lambda>c xs. xs) failing_store [Finite 1, Finite 0] 5 (js ''u1'') = Inr []"
  by (simp add: failing_store_def getCount_def getAllDocuments_def searchWithDirectQuery_def
      search_def rpc_match_documents_def select_count_eq_def select_eq_order_desc_def
      select_eq_limit_def)

text \<open>
  C9, amended. On a read failure of the backing store the three readers return their
  empty value to the caller: \<open>getAllDocuments\<close> the empty list, \<open>getCount\<close> zero, and the
  fallback search the empty list. The underlying message does not reach the caller.
\<close>

theorem read_failure_swallowed:
  assumes "read_error db = Some message"
  shows "getAllDocuments db userId = Inr [] \<and> getCount db userId = Inr 0 \<and>
         searchWithDirectQuery engine db queryEmbedding topK userId = Inr []"
  using assms
  by (simp add: getCount_def getAllDocuments_def searchWithDirectQuery_def
      select_count_eq_def select_eq_order_desc_def select_eq_limit_def)

theorem read_failure_swallowed_witness:
  "read_error failing_store = Some (js ''connection refused'') \<and>
   getAllDocuments failing_store (js ''u1'') = Inr [] \<and> getCount failing_store (js ''u1'') = Inr 0 \<and>
   searchWithDirectQuery (\<lambda>c xs. xs) failing_store [Finite 1, Finite 0] 5 (js ''u1'') = Inr []"
proof -
  have h: "read_error failing_store = Some (js ''connection refused'')"
    by (simp add: failing_store_def)
  from h read_failure_swallowed [OF h, of "js ''u1''" "\<lambda>c xs. xs" "[Finite 1, Finite 0]" 5]
  show ?thesis by simp
qed

subsection \<open>Embedding batches\<close>

lemma promise_all_Inr:
  assumes "promise_all settled promises = Inr values"
  shows "promises = map Inr values"
proof -
  from assms have "filter (\<lambda>i. i < length promises \<and> isl (promises ! i))
                     (settled @ [0..<length promises]) = []"
    and v: "values = map projr promises"
    by (auto simp: promise_all_def split: list.splits)
  then have "\<forall>i<length promises. \<not> isl (promises ! i)"
    by (auto simp: filter_empty_conv)
  then have "\<forall>i<length promises. promises ! i = Inr (projr (promises ! i))"
    by (metis sum.collapse(2))
  then show ?thesis unfolding v by (simp add: list_eq_iff_nth_eq)
qed

lemma promise_all_Inl:
  assumes "promise_all settled promises = Inl e"
  shows "\<exists>i<length promises. promises ! i = Inl e"
proof -
  from assms obtain i rest where
    f: "filter (\<lambda>i. i < length promises \<and> isl (promises ! i))
          (settled @ [0..<length promises]) = i # rest"
    and e: "e = projl (promises ! i)"
    by (auto simp: promise_all_def split: list.splits)
  have "i \<in> set (filter (\<lambda>i. i < length promises \<and> isl (promises ! i))
                   (settled @ [0..<length promises]))"
    unfolding f by simp
  then have "i < length promises" "isl (promises ! i)" by auto
  then show ?thesis using e by (metis sum.collapse(1))
qed

lemma promise_all_rejects:
  assumes "i < length promises" "isl (promises ! i)"
  shows "\<exists>e. promise_all settled promises = Inl e"
proof -
  have "i \<in> set (filter (\<lambda>i. i < length promises \<and> isl (promises ! i))
                   (settled @ [0..<length promises]))"
    using assms by simp
  then have "filter (\<lambda>i. i < length promises \<and> isl (promises ! i))
               (settled @ [0..<length promises]) \<noteq> []"
    by (metis empty_iff list.set(1))
  then show ?thesis by (auto simp: promise_all_def split: list.splits)
qed

lemma map_results_Inr:
  "map_results results = Inr vectors \<Longrightarrow> map embedding_values results = map Some vectors"
  by (induction results arbitrary: vectors) (auto split: option.splits sum.splits)

lemma map_results_Inl:
  "map_results results = Inl e \<Longrightarrow> e = Error (js ''No embedding returned from Gemini'')"
  by (induction results) (auto split: option.splits sum.splits)

text \<open>
  C5, amended. When \<open>generateEmbeddings\<close> returns, it returns one vector per text, the
  \<open>i\<close>-th being the vector of the provider's response to the \<open>i\<close>-th text. When the
  provider fails on some text, the whole batch fails: the error's message is
  \<open>Failed to generate embeddings: \<close> followed by the message of a failing call, and it
  carries no position.
\<close>

theorem generateEmbeddings_all_or_nothing:
  "(\<forall>vectors. generateEmbeddings embedContent settled texts = Inr vectors \<longrightarrow>
      length vectors = length texts \<and>
      (\<forall>i<length texts. \<exists>result. embedContent (texts ! i) = Inr result \<and>
                                  embedding_values result = Some (vectors ! i))) \<and>
   ((\<exists>i<length texts. isl (embedContent (texts ! i))) \<longrightarrow>
      (\<exists>i<length texts. \<exists>e. embedContent (texts ! i) = Inl e \<and>
         generateEmbeddings embedContent settled texts =
           Inl (Error (js ''Failed to generate embeddings: '' @ message_or (js ''Unknown error'') e))))"
proof -
  have success: "length vectors = length texts \<and>
      (\<forall>i<length texts. \<exists>result. embedContent (texts ! i) = Inr result \<and>
                                  embedding_values result = Some (vectors ! i))"
    if ok: "generateEmbeddings embedContent settled texts = Inr vectors" for vectors
  proof -
  from ok obtain results where
    pa: "promise_all settled (map embedContent texts) = Inr results"
    and mr: "map_results results = Inr vectors"
    by (auto simp: generateEmbeddings_def split: sum.splits)
  from promise_all_Inr [OF pa] have m: "map embedContent texts = map Inr results" .
  from map_results_Inr [OF mr] have v: "map embedding_values results = map Some vectors" .
  from m have l1: "length texts = length results" by (metis length_map)
  from v have l2: "length results = length vectors" by (metis length_map)
  have len: "length vectors = length texts" using l1 l2 by simp
  have "\<forall>i<length texts. \<exists>result. embedContent (texts ! i) = Inr result \<and>
                                   embedding_values result = Some (vectors ! i)"
  proof (intro allI impI)
    fix i assume i: "i < length texts"
    have "embedContent (texts ! i) = map embedContent texts ! i" using i by simp
    also have "\<dots> = Inr (results ! i)" using m i l1 by simp
    finally have a: "embedContent (texts ! i) = Inr (results ! i)" .
    have "embedding_values (results ! i) = map embedding_values results ! i"
      using i l1 by simp
    also have "\<dots> = Some (vectors ! i)" using v i l1 l2 by simp
    finally show "\<exists>result. embedContent (texts ! i) = Inr result \<and>
                           embedding_values result = Some (vectors ! i)"
      using a by blast
  qed
  with len show ?thesis by simp
  qed
  have failure: "\<exists>i<length texts. \<exists>e. embedContent (texts ! i) = Inl e \<and>
         generateEmbeddings embedContent settled texts =
           Inl (Error (js ''Failed to generate embeddings: '' @ message_or (js ''Unknown error'') e))"
    if "\<exists>i<length texts. isl (embedContent (texts ! i))"
  proof -
  from that obtain i where "i < length (map embedContent texts)" "isl (map embedContent texts ! i)"
    by auto
  from promise_all_rejects [OF this] obtain e where
    pa: "promise_all settled (map embedContent texts) = Inl e" by blast
  from promise_all_Inl [OF pa] obtain j where
    "j < length texts" "embedContent (texts ! j) = Inl e" by auto
  moreover have "generateEmbeddings embedContent settled texts =
      Inl (Error (js ''Failed to generate embeddings: '' @ message_or (js ''Unknown error'') e))"
    using pa by (simp add: generateEmbeddings_def)
  ultimately show ?thesis by blast
  qed
  from success failure show ?thesis by blast
qed

text \<open>
  C5, as stated, fails: a failure on the first text and a failure on the second text of
  the same batch give the same error, so the error does not name the position.
\<close>

theorem generateEmbeddings_position_counterexample:
  "generateEmbeddings (fails_on (js ''first'')) [] [js ''first'', js ''second''] =
     Inl (Error (js ''Failed to generate embeddings: quota exceeded'')) \<and>
   generateEmbeddings (fails_on (js ''second'')) [] [js ''first'', js ''second''] =
     Inl (Error (js ''Failed to generate embeddings: quota exceeded''))"
  by (simp add: generateEmbeddings_def promise_all_def fails_on_def js_def)

theorem generateEmbeddings_all_or_nothing_witness:
  "generateEmbeddings (fails_on (js ''third'')) [1, 0] [js ''first'', js ''second''] =
     Inr [[Finite 1, Finite 0], [Finite 1, Finite 0]] \<and>
   isl (fails_on (js ''second'') ([js ''first'', js ''second''] ! 1)) \<and>
   generateEmbeddings (fails_on (js ''second'')) [1, 0] [js ''first'', js ''second''] =
     Inl (Error (js ''Failed to generate embeddings: '' @ js ''quota exceeded''))"
  using generateEmbeddings_all_or_nothing
          [of "fails_on (js ''second'')" "[1, 0]" "[js ''first'', js ''second'']"]
  by (simp add: generateEmbeddings_def promise_all_def fails_on_def js_def)

subsection \<open>Sorting\<close>

lemma js_slice_take: "js_slice xs 0 (int k) = take k xs"
  by (simp add: js_slice_def Let_def min_def)

lemma mset_sort_insert: "mset (sort_insert comparefn x xs) = add_mset x (mset xs)"
  by (induction xs) simp_all

lemma mset_sort_fold:
  "mset (foldl (\<lambda>sorted x. sort_insert comparefn x sorted) acc xs) = mset acc + mset xs"
  by (induction xs arbitrary: acc) (simp_all add: mset_sort_insert)

lemma mset_stable_sort: "mset (stable_sort comparefn xs) = mset xs"
  by (simp add: stable_sort_def mset_sort_fold)

lemma mset_js_sort: "mset (js_sort engine comparefn xs) = mset xs"
  by (simp add: js_sort_def mset_stable_sort)

lemma set_js_sort: "set (js_sort engine comparefn xs) = set xs"
  using mset_js_sort [of engine comparefn xs] by (rule mset_eq_setD)

lemma set_stable_sort: "set (stable_sort comparefn xs) = set xs"
  using mset_stable_sort [of comparefn xs] by (rule mset_eq_setD)

text \<open>
  With finite doubles as keys the comparison function \<open>(a, b) => key(b) - key(a)\<close> is
  consistent, and the sort puts the keys in descending order.
\<close>

lemma finite_keysD:
  "finite_keys key xs \<Longrightarrow> x \<in> set xs \<Longrightarrow> \<exists>r. key x = Finite r \<and> on_grid r"
  by (simp add: finite_keys_def list_all_iff)

lemma descending_sort_insert:
  assumes "\<exists>r. key x = Finite r \<and> on_grid r" "finite_keys key xs" "descending key xs"
  shows "descending key (sort_insert (\<lambda>a b. js_sub (key b) (key a)) x xs)"
  using assms(2,3)
proof (induction xs)
  case Nil
  show ?case by (simp add: descending_def)
next
  case (Cons y ys)
  from assms(1) obtain kx where kx: "key x = Finite kx" and gx: "on_grid kx" by blast
  from Cons.prems(1) obtain ky where ky: "key y = Finite ky" and gy: "on_grid ky"
    by (auto simp: finite_keys_def)
  have fin: "finite_keys key ys" using Cons.prems(1) by (simp add: finite_keys_def)
  have desc: "descending key ys" and yge: "\<forall>z\<in>set ys. js_ge (key y) (key z)"
    using Cons.prems(2) by (simp_all add: descending_def)
  have test: "cf_lt (js_sub (key y) (key x)) = (ky < kx)"
    unfolding kx ky using gy gx by (rule cf_lt_sub)
  show ?case
  proof (cases "ky < kx")
    case True
    have "\<forall>z\<in>set ys. js_ge (key x) (key z)"
    proof
      fix z assume z: "z \<in> set ys"
      from finite_keysD [OF fin z] obtain kz where kz: "key z = Finite kz" by blast
      from yge z kz ky have "kz \<le> ky" by (auto simp: js_ge_def)
      with True show "js_ge (key x) (key z)" by (simp add: kx kz js_ge_def)
    qed
    moreover have "js_ge (key x) (key y)" using True by (simp add: kx ky js_ge_def)
    ultimately show ?thesis using True Cons.prems(2) test
      by (simp add: descending_def)
  next
    case False
    have ins: "descending key (sort_insert (\<lambda>a b. js_sub (key b) (key a)) x ys)"
      using Cons.IH [OF fin desc] .
    have "set (sort_insert (\<lambda>a b. js_sub (key b) (key a)) x ys) = insert x (set ys)"
      using mset_sort_insert [of "\<lambda>a b. js_sub (key b) (key a)" x ys]
      by (metis mset_eq_setD set_mset_add_mset_insert set_mset_mset)
    moreover have "js_ge (key y) (key x)" using False by (auto simp: kx ky js_ge_def)
    ultimately show ?thesis using False ins yge test
      by (simp add: descending_def)
  qed
qed

lemma finite_keys_sort_insert:
  "\<exists>r. key x = Finite r \<and> on_grid r \<Longrightarrow> finite_keys key xs \<Longrightarrow>
   finite_keys key (sort_insert c x xs)"
  by (induction xs) (auto simp: finite_keys_def)

lemma descending_sort_fold:
  "finite_keys key xs \<Longrightarrow> finite_keys key acc \<Longrightarrow> descending key acc \<Longrightarrow>
   descending key (foldl (\<lambda>sorted x. sort_insert (\<lambda>a b. js_sub (key b) (key a)) x sorted) acc xs)"
proof (induction xs arbitrary: acc)
  case Nil
  then show ?case by simp
next
  case (Cons x xs)
  from Cons.prems(1) have x: "\<exists>r. key x = Finite r \<and> on_grid r" and xs: "finite_keys key xs"
    by (simp_all add: finite_keys_def)
  show ?case
    using Cons.IH [OF xs finite_keys_sort_insert [OF x Cons.prems(2)]
                      descending_sort_insert [OF x Cons.prems(2,3)]]
    by simp
qed

lemma descending_stable_sort:
  "finite_keys key xs \<Longrightarrow> descending key (stable_sort (\<lambda>a b. js_sub (key b) (key a)) xs)"
  using descending_sort_fold [of key xs "[]"]
  by (simp add: stable_sort_def finite_keys_def descending_def)

lemma consistent_finite_keys:
  assumes "finite_keys key xs"
  shows "consistent_comparefn (\<lambda>a b. js_sub (key b) (key a)) xs"
proof -
  define k where "k x = (case key x of Finite r \<Rightarrow> r | _ \<Rightarrow> 0)" for x
  have key: "key a = Finite (k a)" and grid: "on_grid (k a)" if "a \<in> set xs" for a
    using finite_keysD [OF assms that] by (auto simp: k_def)
  have lt: "cf_lt (js_sub (key b) (key a)) = (k b < k a)"
    if "a \<in> set xs" "b \<in> set xs" for a b
    unfolding key [OF that(1)] key [OF that(2)]
    using grid [OF that(2)] grid [OF that(1)] by (rule cf_lt_sub)
  have gt: "cf_gt (js_sub (key b) (key a)) = (k a < k b)"
    if "a \<in> set xs" "b \<in> set xs" for a b
    unfolding key [OF that(1)] key [OF that(2)]
    using grid [OF that(2)] grid [OF that(1)] by (rule cf_gt_sub)
  have "\<forall>a\<in>set xs. \<forall>b\<in>set xs. js_sub (key b) (key a) \<noteq> NaN"
    by (simp add: key)
  moreover have "\<forall>a\<in>set xs. cf_eq (js_sub (key a) (key a))"
    by (simp add: lt gt cf_eq_def)
  moreover have "\<forall>a\<in>set xs. \<forall>b\<in>set xs.
      cf_eq (js_sub (key b) (key a)) \<longrightarrow> cf_eq (js_sub (key a) (key b))"
    by (simp add: lt gt cf_eq_def)
  moreover have "\<forall>a\<in>set xs. \<forall>b\<in>set xs. \<forall>c\<in>set xs.
      cf_eq (js_sub (key b) (key a)) \<and> cf_eq (js_sub (key c) (key b)) \<longrightarrow>
      cf_eq (js_sub (key c) (key a))"
    by (simp add: lt gt cf_eq_def)
  moreover have "\<forall>a\<in>set xs. \<forall>b\<in>set xs. \<forall>c\<in>set xs.
      cf_lt (js_sub (key b) (key a)) \<and> cf_lt (js_sub (key c) (key b)) \<longrightarrow>
      cf_lt (js_sub (key c) (key a))"
    by (simp add: lt)
  moreover have "\<forall>a\<in>set xs. \<forall>b\<in>set xs. \<forall>c\<in>set xs.
      cf_gt (js_sub (key b) (key a)) \<and> cf_gt (js_sub (key c) (key b)) \<longrightarrow>
      cf_gt (js_sub (key c) (key a))"
    by (simp add: gt)
  ultimately show ?thesis unfolding consistent_comparefn_def by blast
qed

lemma js_sort_finite_keys:
  "finite_keys key xs \<Longrightarrow>
   js_sort engine (\<lambda>a b. js_sub (key b) (key a)) xs = stable_sort (\<lambda>a b. js_sub (key b) (key a)) xs"
  by (simp add: js_sort_def consistent_finite_keys)

lemma descending_take: "descending key xs \<Longrightarrow> descending key (take k xs)"
  unfolding descending_def by (rule sorted_wrt_take)

lemma descending_filter: "descending key xs \<Longrightarrow> descending key (filter P xs)"
  unfolding descending_def by (rule sorted_wrt_filter)

subsection \<open>Search\<close>

lemma similarity_to_chunk [simp]:
  "similarity q (to_chunk row) = cosineSimilarity q (row_embedding row)"
  by (simp add: similarity_def to_chunk_def)

lemma searchWithDirectQuery_eq:
  "searchWithDirectQuery engine db q topK userId =
     (case read_error db of
        Some message \<Rightarrow> Inr []
      | None \<Rightarrow> Inr (ranked engine q topK (take 500 (owned_rows db userId))))"
  by (simp add: searchWithDirectQuery_def select_eq_limit_def ranked_def owned_rows_def
      js_slice_take Let_def split: option.splits)

lemma length_ranked: "length (ranked engine q topK rows) \<le> topK"
proof -
  have "length (ranked engine q topK rows)
          \<le> length (take topK (js_sort engine (\<lambda>a b. js_sub (snd b) (snd a))
                (map (\<lambda>row. (row, cosineSimilarity q (row_embedding row))) rows)))"
    unfolding ranked_def length_map by (rule length_filter_le)
  also have "\<dots> \<le> topK" by simp
  finally show ?thesis .
qed

lemma ranked_provenance:
  assumes "c \<in> set (ranked engine q topK rows)"
  shows "\<exists>row\<in>set rows. c = to_chunk row \<and> js_gt (similarity q c) (Finite 0.5)"
proof -
  from assms obtain item where
    item: "item \<in> set (take topK (js_sort engine (\<lambda>a b. js_sub (snd b) (snd a))
                (map (\<lambda>row. (row, cosineSimilarity q (row_embedding row))) rows)))"
    and gt: "js_gt (snd item) (Finite 0.5)" and c: "c = to_chunk (fst item)"
    by (auto simp: ranked_def)
  from item have "item \<in> set (js_sort engine (\<lambda>a b. js_sub (snd b) (snd a))
                (map (\<lambda>row. (row, cosineSimilarity q (row_embedding row))) rows))"
    by (rule in_set_takeD)
  then have "item \<in> set (map (\<lambda>row. (row, cosineSimilarity q (row_embedding row))) rows)"
    by (simp only: set_js_sort)
  then obtain row where "row \<in> set rows" "item = (row, cosineSimilarity q (row_embedding row))"
    by auto
  with gt c show ?thesis by auto
qed

text \<open>A finite similarity is a double: zero, or the rounded quotient.\<close>

lemma js_div_on_grid: "js_div d w = Finite r \<Longrightarrow> on_grid r"
  by (cases d; cases w)
     (auto simp: on_grid_0 on_grid_nearest dest!: to_double_FiniteD split: if_splits)

lemma cosineSimilarity_on_grid: "cosineSimilarity a b = Finite r \<Longrightarrow> on_grid r"
  by (auto simp: cosineSimilarity_def on_grid_0 split: if_splits prod.splits
      dest: js_div_on_grid)

lemma descending_ranked:
  assumes "\<forall>row\<in>set rows. \<exists>r. cosineSimilarity q (row_embedding row) = Finite r"
  shows "descending (similarity q) (ranked engine q topK rows)"
proof -
  let ?items = "map (\<lambda>row. (row, cosineSimilarity q (row_embedding row))) rows"
  let ?sorted = "js_sort engine (\<lambda>a b. js_sub (snd b) (snd a)) ?items"
  let ?kept = "filter (\<lambda>item. js_gt (snd item) (Finite 0.5)) (take topK ?sorted)"
  have fin: "finite_keys snd ?items"
    using assms by (auto simp: finite_keys_def list_all_iff dest: cosineSimilarity_on_grid)
  then have "descending snd ?sorted"
    by (simp add: js_sort_finite_keys descending_stable_sort)
  then have kept: "descending snd ?kept"
    by (intro descending_filter descending_take)
  have key: "snd item = similarity q (to_chunk (fst item))" if "item \<in> set ?kept" for item
  proof -
    from that have "item \<in> set (take topK ?sorted)" by simp
    then have "item \<in> set ?sorted" by (rule in_set_takeD)
    then have "item \<in> set ?items" by (simp only: set_js_sort)
    then show ?thesis by auto
  qed
  have "sorted_wrt (\<lambda>a b. js_ge (similarity q (to_chunk (fst a))) (similarity q (to_chunk (fst b)))) ?kept"
  proof (rule sorted_wrt_mono_rel)
    show "sorted_wrt (\<lambda>a b. js_ge (snd a) (snd b)) ?kept"
      using kept by (simp only: descending_def)
  next
    fix a b
    assume a: "a \<in> set ?kept" and b: "b \<in> set ?kept" and ge: "js_ge (snd a) (snd b)"
    from ge show "js_ge (similarity q (to_chunk (fst a))) (similarity q (to_chunk (fst b)))"
      by (simp only: key [OF a] key [OF b])
  qed
  then show ?thesis
    by (simp add: descending_def ranked_def sorted_wrt_map)
qed

text \<open>
  The fallback does rank by descending similarity when every similarity of the owner's
  rows is a finite number: the order is lost only to a similarity that is \<open>NaN\<close> or
  infinite.
\<close>

lemma fallback_descending_when_finite:
  assumes "\<forall>row\<in>set (owned_rows db userId). \<exists>r. cosineSimilarity q (row_embedding row) = Finite r"
  shows "\<exists>chunks. searchWithDirectQuery engine db q topK userId = Inr chunks \<and>
                  descending (similarity q) chunks"
proof (cases "read_error db")
  case (Some message)
  then show ?thesis by (simp add: searchWithDirectQuery_eq descending_def)
next
  case None
  have "\<forall>row\<in>set (take 500 (owned_rows db userId)).
          \<exists>r. cosineSimilarity q (row_embedding row) = Finite r"
    using assms by (auto dest: in_set_takeD)
  then have "descending (similarity q) (ranked engine q topK (take 500 (owned_rows db userId)))"
    by (rule descending_ranked)
  with None show ?thesis by (simp add: searchWithDirectQuery_eq)
qed

text \<open>The remote procedure's rows, filtered by owner.\<close>

lemma match_documents_subset:
  "row \<in> set (match_documents rows q t k) \<Longrightarrow>
   row \<in> set rows \<and> js_gt (cosineSimilarity q (row_embedding row)) (Finite t)"
proof -
  assume "row \<in> set (match_documents rows q t k)"
  then have "row \<in> set (stable_sort
          (\<lambda>a b. js_sub (cosineSimilarity q (row_embedding b)) (cosineSimilarity q (row_embedding a)))
          (filter (\<lambda>row. js_gt (cosineSimilarity q (row_embedding row)) (Finite t)) rows))"
    unfolding match_documents_def by (rule in_set_takeD)
  then show ?thesis by (simp add: set_stable_sort)
qed

lemma length_match_documents: "length (match_documents rows q t k) \<le> k"
  by (simp add: match_documents_def)

lemma search_eq:
  "search engine db q topK userId =
     (case rpc db of
        RpcAvailable \<Rightarrow> Inr (via_rpc db q topK userId)
      | _ \<Rightarrow> searchWithDirectQuery engine db q topK userId)"
  by (simp add: search_def rpc_match_documents_def via_rpc_def split: rpc_status.splits)

lemma length_via_rpc: "length (via_rpc db q topK userId) \<le> topK"
proof -
  have "length (via_rpc db q topK userId) \<le> length (match_documents (document_chunks db) q 0.5 topK)"
    unfolding via_rpc_def length_map by (rule length_filter_le)
  also have "\<dots> \<le> topK" by (rule length_match_documents)
  finally show ?thesis .
qed

lemma via_rpc_provenance:
  assumes "c \<in> set (via_rpc db q topK userId)"
  shows "\<exists>row\<in>set (owned_rows db userId). c = to_chunk row \<and> js_gt (similarity q c) (Finite 0.5)"
proof -
  from assms obtain row where
    "row \<in> set (match_documents (document_chunks db) q 0.5 topK)" "user_id row = userId"
    "c = to_chunk row"
    by (auto simp: via_rpc_def)
  with match_documents_subset [of row "document_chunks db" q "0.5" topK]
  show ?thesis by (auto simp: owned_rows_def)
qed

lemma search_cases:
  "search engine db q topK userId = Inr (via_rpc db q topK userId) \<or>
   search engine db q topK userId = Inr [] \<or>
   search engine db q topK userId = Inr (ranked engine q topK (take 500 (owned_rows db userId)))"
  by (simp add: search_eq searchWithDirectQuery_eq split: rpc_status.splits option.splits)

lemma provenance_owner:
  assumes "\<forall>c\<in>set chunks. \<exists>row\<in>set (owned_rows db userId).
             c = to_chunk row \<and> js_gt (similarity q c) (Finite 0.5)"
  shows "\<forall>c\<in>set chunks. \<exists>row\<in>set (document_chunks db). user_id row = userId \<and> c = to_chunk row"
    and "\<forall>c\<in>set chunks. js_gt (similarity q c) (Finite 0.5)"
    and "(\<forall>row\<in>set (owned_rows db userId).
            \<not> js_gt (cosineSimilarity q (row_embedding row)) (Finite 0.5)) \<longrightarrow> chunks = []"
proof -
  show "\<forall>c\<in>set chunks. \<exists>row\<in>set (document_chunks db). user_id row = userId \<and> c = to_chunk row"
  proof
    fix c assume "c \<in> set chunks"
    with assms obtain row where "row \<in> set (owned_rows db userId)" "c = to_chunk row" by blast
    then show "\<exists>row\<in>set (document_chunks db). user_id row = userId \<and> c = to_chunk row"
      by (auto simp: owned_rows_def)
  qed
  show "\<forall>c\<in>set chunks. js_gt (similarity q c) (Finite 0.5)"
    using assms by blast
  show "(\<forall>row\<in>set (owned_rows db userId).
            \<not> js_gt (cosineSimilarity q (row_embedding row)) (Finite 0.5)) \<longrightarrow> chunks = []"
  proof
    assume none: "\<forall>row\<in>set (owned_rows db userId).
                    \<not> js_gt (cosineSimilarity q (row_embedding row)) (Finite 0.5)"
    show "chunks = []"
    proof (cases chunks)
      case Nil
      then show ?thesis .
    next
      case (Cons c cs)
      then have "c \<in> set chunks" by simp
      with assms obtain row where row: "row \<in> set (owned_rows db userId)" "c = to_chunk row"
        "js_gt (similarity q c) (Finite 0.5)" by blast
      then have "js_gt (cosineSimilarity q (row_embedding row)) (Finite 0.5)" by simp
      with none row(1) show ?thesis by blast
    qed
  qed
qed

text \<open>
  What holds of \<open>search\<close> on every input and on either path: it returns at most \<open>topK\<close>
  chunks, each the chunk of a row of the owner, each of similarity strictly above 0.5;
  when no row of the owner exceeds the threshold it returns no chunk.
\<close>

lemma search_bounded_owned_thresholded:
  "\<exists>chunks. search engine db q topK userId = Inr chunks \<and>
           length chunks \<le> topK \<and>
           (\<forall>c\<in>set chunks. \<exists>row\<in>set (document_chunks db). user_id row = userId \<and> c = to_chunk row) \<and>
           (\<forall>c\<in>set chunks. js_gt (similarity q c) (Finite 0.5)) \<and>
           ((\<forall>row\<in>set (owned_rows db userId).
               \<not> js_gt (cosineSimilarity q (row_embedding row)) (Finite 0.5)) \<longrightarrow> chunks = [])"
proof -
  let ?window = "take 500 (owned_rows db userId)"
  from search_cases [of engine db q topK userId]
  consider (rpc) "search engine db q topK userId = Inr (via_rpc db q topK userId)"
    | (none) "search engine db q topK userId = Inr []"
    | (fallback) "search engine db q topK userId = Inr (ranked engine q topK ?window)"
    by blast
  then show ?thesis
  proof cases
    case rpc
    have p: "\<forall>c\<in>set (via_rpc db q topK userId). \<exists>row\<in>set (owned_rows db userId).
               c = to_chunk row \<and> js_gt (similarity q c) (Finite 0.5)"
      using via_rpc_provenance by blast
    show ?thesis
      by (rule exI [of _ "via_rpc db q topK userId"])
         (intro conjI rpc length_via_rpc provenance_owner [OF p])
  next
    case none
    show ?thesis
      by (rule exI [of _ "[]"]) (simp add: none)
  next
    case fallback
    have p: "\<forall>c\<in>set (ranked engine q topK ?window). \<exists>row\<in>set (owned_rows db userId).
               c = to_chunk row \<and> js_gt (similarity q c) (Finite 0.5)"
    proof
      fix c assume "c \<in> set (ranked engine q topK ?window)"
      from ranked_provenance [OF this] obtain row where
        "row \<in> set ?window" "c = to_chunk row" "js_gt (similarity q c) (Finite 0.5)" by blast
      then show "\<exists>row\<in>set (owned_rows db userId).
                   c = to_chunk row \<and> js_gt (similarity q c) (Finite 0.5)"
        by (auto dest: in_set_takeD)
    qed
    show ?thesis
      by (rule exI [of _ "ranked engine q topK ?window"])
         (intro conjI fallback length_ranked provenance_owner [OF p])
  qed
qed

lemma to_double_three_quarters: "to_double (3 / 4) = Finite (3 / 4)"
proof (rule to_double_exact [of _ 3 "- 2"])
  show "(3 / 4 :: real) = of_int 3 * 2 powi (- 2)" by (simp add: power_int_minus_divide)
qed simp_all

lemma sim_a: "cosineSimilarity sample_query (row_embedding row_a) = Finite (3 / 4)"
  by (simp add: sample_query_def row_a_def cosineSimilarity_def to_double_numeral sqrt_16
      to_double_three_quarters)

lemma sim_zero: "cosineSimilarity sample_query (row_embedding row_zero) = NaN"
  by (simp add: sample_query_def row_zero_def cosineSimilarity_def)

lemma sim_c: "cosineSimilarity sample_query (row_embedding row_c) = Finite 1"
  by (simp add: sample_query_def row_c_def cosineSimilarity_def)

lemma not_consistent_with_NaN:
  "\<not> consistent_comparefn (\<lambda>a b. js_sub (snd b) (snd a))
       [(row_a, Finite (3 / 4)), (row_zero, NaN), (row_c, Finite 1)]"
proof
  assume "consistent_comparefn (\<lambda>a b. js_sub (snd b) (snd a))
            [(row_a, Finite (3 / 4)), (row_zero, NaN), (row_c, Finite 1)]"
  then have "\<forall>a\<in>set [(row_a, Finite (3 / 4)), (row_zero, NaN), (row_c, Finite 1)].
             \<forall>b\<in>set [(row_a, Finite (3 / 4)), (row_zero, NaN), (row_c, Finite 1)].
               js_sub (snd b) (snd a) \<noteq> NaN"
    unfolding consistent_comparefn_def by (rule conjunct1)
  then have "\<forall>b\<in>set [(row_a, Finite (3 / 4)), (row_zero, NaN), (row_c, Finite 1)].
               js_sub (snd b) (snd (row_zero, NaN)) \<noteq> NaN"
    by (rule bspec) simp
  then have "js_sub (snd (row_zero, NaN)) (snd (row_zero, NaN)) \<noteq> NaN"
    by (rule bspec) simp
  then show False by simp
qed

text \<open>
  C1 fails in the code. The source sorts the candidates "by similarity (descending)",
  but on the fallback path a stored embedding that is an all-zero vector of the query's
  length has the similarity \<open>NaN\<close> (the division in \<open>cosineSimilarity\<close> is not guarded,
  as its length check is), every comparison with that candidate gives \<open>NaN\<close>, the
  comparison function is not consistent, and the order after \<open>sort\<close> is the engine's.
  With an engine that leaves this array as it is (V8 does: each comparison with the
  \<open>NaN\<close> candidate counts as a tie, so the array is one run), the owner's rows of
  similarity 0.75, \<open>NaN\<close> and 1, met in this order, are returned as the chunk of
  similarity 0.75 before the chunk of similarity 1.
\<close>

theorem search_order_lost_on_zero_vector:
  "search unchanged zero_vector_store sample_query 5 (js ''u1'') =
     Inr [to_chunk row_a, to_chunk row_c] \<and>
   similarity sample_query (to_chunk row_a) = Finite (3 / 4) \<and>
   similarity sample_query (to_chunk row_zero) = NaN \<and>
   similarity sample_query (to_chunk row_c) = Finite 1 \<and>
   \<not> descending (similarity sample_query) [to_chunk row_a, to_chunk row_c]"
proof -
  have rows: "take 500 (owned_rows zero_vector_store (js ''u1'')) = [row_a, row_zero, row_c]"
    by (simp add: owned_rows_def zero_vector_store_def row_a_def row_zero_def row_c_def)
  have fields: "rpc zero_vector_store = RpcError (js ''function not found'')"
    "read_error zero_vector_store = None"
    by (simp_all add: zero_vector_store_def)
  have "ranked unchanged sample_query 5 [row_a, row_zero, row_c] = [to_chunk row_a, to_chunk row_c]"
    by (simp add: ranked_def sim_a sim_c sim_zero js_sort_def not_consistent_with_NaN
        unchanged_def)
  then have "search unchanged zero_vector_store sample_query 5 (js ''u1'') =
               Inr [to_chunk row_a, to_chunk row_c]"
    using fields by (simp add: search_eq searchWithDirectQuery_eq rows)
  moreover have "similarity sample_query (to_chunk row_a) = Finite (3 / 4)"
    "similarity sample_query (to_chunk row_zero) = NaN"
    "similarity sample_query (to_chunk row_c) = Finite 1"
    by (simp_all add: sim_a sim_c sim_zero)
  moreover from this have "\<not> descending (similarity sample_query) [to_chunk row_a, to_chunk row_c]"
    by (simp add: descending_def js_ge_def del: similarity_to_chunk)
  ultimately show ?thesis by blast
qed

text \<open>
  The threshold is applied to the rounded similarity: \<open>[3, 3, 0]\<close> and \<open>[3, 0, 3]\<close>, whose
  exact cosine is one half, have the similarity \<open>1 / 2 + 1 / 2 ^ 53\<close>, printed
  \<open>0.5000000000000001\<close>, which passes \<open>> 0.5\<close>.
\<close>

lemma sqrt_18_rounded: "to_double (sqrt 18) = Finite (4776788754394329 / 2 ^ 50)"
  using to_double_sqrt_eval [of 2 18 4776788754394329]
  by (simp add: power2_eq_square power_int_minus_divide)

lemma sqrt_18_squared:
  "to_double (4776788754394329 / 2 ^ 50 * (4776788754394329 / 2 ^ 50)) =
     Finite (5066549580791807 / 2 ^ 48)"
  using to_double_eval [of 4 "4776788754394329 / 2 ^ 50 * (4776788754394329 / 2 ^ 50)"
      5066549580791807]
  by (simp add: power_int_minus_divide)

lemma nine_by_square:
  "to_double (9 / (5066549580791807 / 2 ^ 48)) = Finite (1 / 2 + 1 / 2 ^ 53)"
  using to_double_eval [of "- 1" "9 / (5066549580791807 / 2 ^ 48)" 4503599627370497]
  by (simp add: power_int_minus_divide)

lemma cosineSimilarity_above_half:
  "cosineSimilarity [Finite 3, Finite 3, Finite 0] [Finite 3, Finite 0, Finite 3] =
     Finite (1 / 2 + 1 / 2 ^ 53)"
proof -
  have "cosine_loop [Finite 3, Finite 3, Finite 0] [Finite 3, Finite 0, Finite 3]
          (Finite 0, Finite 0, Finite 0) = (Finite 9, Finite 18, Finite 18)"
    by (simp add: to_double_numeral)
  moreover have "js_sqrt (Finite 18) = Finite (4776788754394329 / 2 ^ 50)"
    by (simp add: sqrt_18_rounded)
  moreover have "js_mul (Finite (4776788754394329 / 2 ^ 50)) (Finite (4776788754394329 / 2 ^ 50)) =
      Finite (5066549580791807 / 2 ^ 48)"
    by (simp only: js_mul.simps sqrt_18_squared)
  moreover have "js_div (Finite 9) (Finite (5066549580791807 / 2 ^ 48)) = Finite (1 / 2 + 1 / 2 ^ 53)"
    using nine_by_square by simp
  ultimately show ?thesis by (simp add: cosineSimilarity_def)
qed

lemma above_half_passes:
  "js_gt (cosineSimilarity [Finite 3, Finite 3, Finite 0] [Finite 3, Finite 0, Finite 3]) (Finite 0.5)"
  by (simp add: cosineSimilarity_above_half)

subsection \<open>Owner isolation\<close>

lemma insert_row_effect:
  "insert_row db row = (err, db') \<Longrightarrow>
   (document_chunks db' = document_chunks db \<or> document_chunks db' = document_chunks db @ [row]) \<and>
   read_error db' = read_error db \<and> write_error db' = write_error db \<and> rpc db' = rpc db"
  by (auto simp: insert_row_def split: option.splits)

lemma addDocuments_loop_effect:
  "addDocuments_loop uuid next db chunks A ids = (outcome, db') \<Longrightarrow>
   (\<exists>new. document_chunks db' = document_chunks db @ new \<and>
          (\<forall>row\<in>set new. user_id row = A \<and> (\<exists>n. row_id row = uuid n))) \<and>
   read_error db' = read_error db \<and> write_error db' = write_error db \<and> rpc db' = rpc db"
proof (induction chunks arbitrary: "next" db ids)
  case Nil
  then show ?case by simp
next
  case (Cons chunk chunks)
  let ?row = "\<lparr>row_id = uuid next, row_text = chunk_text chunk, row_embedding = embedding chunk,
              file_name = fileName (metadata chunk), chunk_index = chunkIndex (metadata chunk),
              created_at = timestamp (metadata chunk), user_id = A\<rparr>"
  obtain err db1 where ins: "insert_row db ?row = (err, db1)" by (cases "insert_row db ?row")
  note eff = insert_row_effect [OF ins]
  show ?case
  proof (cases err)
    case (Some message)
    with Cons.prems ins have "db' = db1" by (simp add: Let_def)
    with eff show ?thesis by auto
  next
    case None
    with Cons.prems ins
    have "addDocuments_loop uuid (Suc next) db1 chunks A (ids @ [uuid next]) = (outcome, db')"
      by (simp add: Let_def)
    from Cons.IH [OF this] obtain new where
      new: "document_chunks db' = document_chunks db1 @ new"
        "\<forall>row\<in>set new. user_id row = A \<and> (\<exists>n. row_id row = uuid n)"
      and same: "read_error db' = read_error db1" "write_error db' = write_error db1"
        "rpc db' = rpc db1"
      by blast
    from eff have "document_chunks db1 = document_chunks db @ [] \<or>
                   document_chunks db1 = document_chunks db @ [?row]" by simp
    then have "\<exists>new1. document_chunks db' = document_chunks db @ new1 \<and>
          (\<forall>row\<in>set new1. user_id row = A \<and> (\<exists>n. row_id row = uuid n))"
    proof
      assume "document_chunks db1 = document_chunks db @ []"
      with new show ?thesis by auto
    next
      assume "document_chunks db1 = document_chunks db @ [?row]"
      with new have "document_chunks db' = document_chunks db @ (?row # new)"
        "\<forall>row\<in>set (?row # new). user_id row = A \<and> (\<exists>n. row_id row = uuid n)"
        by auto
      then show ?thesis by blast
    qed
    with same eff show ?thesis by simp
  qed
qed

lemma owned_rows_after_insertion:
  assumes "A \<noteq> B" "addDocuments uuid next db chunks A = (outcome, db')"
  shows "owned_rows db' B = owned_rows db B"
proof -
  from addDocuments_loop_effect [OF assms(2) [unfolded addDocuments_def]] obtain new where
    "document_chunks db' = document_chunks db @ new" "\<forall>row\<in>set new. user_id row = A"
    by blast
  with assms(1) show ?thesis by (simp add: owned_rows_def)
qed

lemma getCount_eq:
  "getCount db userId =
     (case read_error db of Some message \<Rightarrow> Inr 0 | None \<Rightarrow> Inr (length (owned_rows db userId)))"
  by (simp add: getCount_def select_count_eq_def owned_rows_def split: option.splits)

lemma getAllDocuments_eq:
  "getAllDocuments db userId =
     (case read_error db of
        Some message \<Rightarrow> Inr []
      | None \<Rightarrow> Inr (map to_chunk (sort_key (\<lambda>row. - created_at row) (owned_rows db userId))))"
  by (simp add: getAllDocuments_def select_eq_order_desc_def owned_rows_def split: option.splits)

lemma search_provenance:
  "\<exists>found. search engine db q topK userId = Inr found \<and>
           (\<forall>c\<in>set found. \<exists>row\<in>set (owned_rows db userId). c = to_chunk row)"
proof -
  from search_cases [of engine db q topK userId]
  consider (rpc) "search engine db q topK userId = Inr (via_rpc db q topK userId)"
    | (none) "search engine db q topK userId = Inr []"
    | (fallback) "search engine db q topK userId =
                    Inr (ranked engine q topK (take 500 (owned_rows db userId)))"
    by blast
  then show ?thesis
  proof cases
    case rpc
    moreover have "\<forall>c\<in>set (via_rpc db q topK userId).
                     \<exists>row\<in>set (owned_rows db userId). c = to_chunk row"
      using via_rpc_provenance by blast
    ultimately show ?thesis by blast
  next
    case none
    then show ?thesis by simp
  next
    case fallback
    moreover have "\<forall>c\<in>set (ranked engine q topK (take 500 (owned_rows db userId))).
                     \<exists>row\<in>set (owned_rows db userId). c = to_chunk row"
    proof
      fix c assume "c \<in> set (ranked engine q topK (take 500 (owned_rows db userId)))"
      from ranked_provenance [OF this] obtain row where
        "row \<in> set (take 500 (owned_rows db userId))" "c = to_chunk row" by blast
      then show "\<exists>row\<in>set (owned_rows db userId). c = to_chunk row"
        by (auto dest: in_set_takeD)
    qed
    ultimately show ?thesis by blast
  qed
qed

lemma getAllDocuments_provenance:
  "\<exists>found. getAllDocuments db userId = Inr found \<and>
           (\<forall>c\<in>set found. \<exists>row\<in>set (owned_rows db userId). c = to_chunk row)"
  by (cases "read_error db") (auto simp: getAllDocuments_eq)

text \<open>
  C2. After chunks are inserted under owner \<open>A\<close>, whatever the store held before and
  whether or not the insertion succeeded, another owner \<open>B\<close> sees what it saw before:
  \<open>getCount\<close> and \<open>getAllDocuments\<close> are unchanged and so is the fallback search; and every
  chunk that \<open>search\<close> (server-side path or fallback) or \<open>getAllDocuments\<close> returns for
  \<open>B\<close> is the chunk of a row of \<open>B\<close> that was in the store before the insertion, so none
  carries an identifier handed out for the insertion when those are fresh.
\<close>

theorem owner_isolation:
  assumes "A \<noteq> B" and "addDocuments uuid next db chunks A = (outcome, db')"
  shows "getCount db' B = getCount db B \<and>
         getAllDocuments db' B = getAllDocuments db B \<and>
         searchWithDirectQuery engine db' q topK B = searchWithDirectQuery engine db q topK B \<and>
         (\<exists>found. search engine db' q topK B = Inr found \<and>
            (\<forall>c\<in>set found. \<exists>row\<in>set (document_chunks db). user_id row = B \<and> c = to_chunk row) \<and>
            ((\<forall>n. uuid n \<notin> row_id ` set (document_chunks db)) \<longrightarrow>
               (\<forall>c\<in>set found. \<forall>n. chunk_id c \<noteq> uuid n))) \<and>
         (\<exists>found. getAllDocuments db' B = Inr found \<and>
            (\<forall>c\<in>set found. \<exists>row\<in>set (document_chunks db). user_id row = B \<and> c = to_chunk row) \<and>
            ((\<forall>n. uuid n \<notin> row_id ` set (document_chunks db)) \<longrightarrow>
               (\<forall>c\<in>set found. \<forall>n. chunk_id c \<noteq> uuid n)))"
proof -
  note owned = owned_rows_after_insertion [OF assms]
  from addDocuments_loop_effect [OF assms(2) [unfolded addDocuments_def]]
  have re: "read_error db' = read_error db" by blast
  have old: "(\<forall>c\<in>set found. \<exists>row\<in>set (document_chunks db). user_id row = B \<and> c = to_chunk row) \<and>
            ((\<forall>n. uuid n \<notin> row_id ` set (document_chunks db)) \<longrightarrow>
               (\<forall>c\<in>set found. \<forall>n. chunk_id c \<noteq> uuid n))"
    if p: "\<forall>c\<in>set found. \<exists>row\<in>set (owned_rows db' B). c = to_chunk row" for found
  proof -
    have q: "\<exists>row\<in>set (document_chunks db). user_id row = B \<and> c = to_chunk row"
      if "c \<in> set found" for c
      using p that unfolding owned by (auto simp: owned_rows_def)
    have "chunk_id c \<noteq> uuid n"
      if "c \<in> set found" and fresh: "\<forall>n. uuid n \<notin> row_id ` set (document_chunks db)" for c n
    proof -
      from q [OF that(1)] obtain row where "row \<in> set (document_chunks db)" "c = to_chunk row"
        by blast
      then have "chunk_id c \<in> row_id ` set (document_chunks db)"
        by (simp add: to_chunk_def)
      with fresh show ?thesis by metis
    qed
    with q show ?thesis by blast
  qed
  have "getCount db' B = getCount db B"
    unfolding getCount_eq owned re by (rule refl)
  moreover have "getAllDocuments db' B = getAllDocuments db B"
    unfolding getAllDocuments_eq owned re by (rule refl)
  moreover have "searchWithDirectQuery engine db' q topK B = searchWithDirectQuery engine db q topK B"
    unfolding searchWithDirectQuery_eq owned re by (rule refl)
  moreover from search_provenance [of engine db' q topK B] old
  have "\<exists>found. search engine db' q topK B = Inr found \<and>
            (\<forall>c\<in>set found. \<exists>row\<in>set (document_chunks db). user_id row = B \<and> c = to_chunk row) \<and>
            ((\<forall>n. uuid n \<notin> row_id ` set (document_chunks db)) \<longrightarrow>
               (\<forall>c\<in>set found. \<forall>n. chunk_id c \<noteq> uuid n))"
    by blast
  moreover from getAllDocuments_provenance [of db' B] old
  have "\<exists>found. getAllDocuments db' B = Inr found \<and>
            (\<forall>c\<in>set found. \<exists>row\<in>set (document_chunks db). user_id row = B \<and> c = to_chunk row) \<and>
            ((\<forall>n. uuid n \<notin> row_id ` set (document_chunks db)) \<longrightarrow>
               (\<forall>c\<in>set found. \<forall>n. chunk_id c \<noteq> uuid n))"
    by blast
  ultimately show ?thesis by blast
qed

theorem owner_isolation_witness:
  "js ''u2'' \<noteq> js ''u1'' \<and>
   fst (addDocuments sample_uuid 0 shared_store [intruder_chunk] (js ''u2'')) = Inr [sample_uuid 0] \<and>
   length (document_chunks (snd (addDocuments sample_uuid 0 shared_store [intruder_chunk] (js ''u2'')))) = 3 \<and>
   getCount (snd (addDocuments sample_uuid 0 shared_store [intruder_chunk] (js ''u2''))) (js ''u1'')
     = Inr 2 \<and>
   (\<exists>found. search unchanged (snd (addDocuments sample_uuid 0 shared_store [intruder_chunk] (js ''u2'')))
              [Finite 1, Finite 0] 5 (js ''u1'') = Inr found \<and>
            (\<forall>c\<in>set found. \<exists>row\<in>set (document_chunks shared_store).
                user_id row = js ''u1'' \<and> c = to_chunk row))"
proof -
  have h1: "js ''u2'' \<noteq> js ''u1''" by (simp add: js_def)
  have h2: "addDocuments sample_uuid 0 shared_store [intruder_chunk] (js ''u2'') =
              (fst (addDocuments sample_uuid 0 shared_store [intruder_chunk] (js ''u2'')),
               snd (addDocuments sample_uuid 0 shared_store [intruder_chunk] (js ''u2'')))"
    by simp
  have ok: "fst (addDocuments sample_uuid 0 shared_store [intruder_chunk] (js ''u2'')) =
              Inr [sample_uuid 0]"
    "length (document_chunks (snd (addDocuments sample_uuid 0 shared_store [intruder_chunk] (js ''u2'')))) = 3"
    by (simp_all add: addDocuments_def insert_row_def shared_store_def Let_def)
  have cnt: "getCount shared_store (js ''u1'') = Inr 2"
    by (simp add: getCount_eq owned_rows_def shared_store_def row_a_def row_c_def)
  from owner_isolation [OF h1 h2, of unchanged "[Finite 1, Finite 0]" 5] obtain found where
    same: "getCount (snd (addDocuments sample_uuid 0 shared_store [intruder_chunk] (js ''u2'')))
             (js ''u1'') = getCount shared_store (js ''u1'')"
    and found: "search unchanged (snd (addDocuments sample_uuid 0 shared_store [intruder_chunk] (js ''u2'')))
              [Finite 1, Finite 0] 5 (js ''u1'') = Inr found"
      "\<forall>c\<in>set found. \<exists>row\<in>set (document_chunks shared_store).
                user_id row = js ''u1'' \<and> c = to_chunk row"
    by blast
  from found have "\<exists>found. search unchanged (snd (addDocuments sample_uuid 0 shared_store [intruder_chunk] (js ''u2'')))
              [Finite 1, Finite 0] 5 (js ''u1'') = Inr found \<and>
            (\<forall>c\<in>set found. \<exists>row\<in>set (document_chunks shared_store).
                user_id row = js ''u1'' \<and> c = to_chunk row)"
    by blast
  with h1 ok same cnt show ?thesis by simp
qed

subsection \<open>Chunker\<close>

lemma js_slice_inside:
  "0 \<le> s \<Longrightarrow> s \<le> e \<Longrightarrow> e \<le> int (length xs) \<Longrightarrow>
   js_slice xs s e = take (nat (e - s)) (drop (nat s) xs)"
  by (simp add: js_slice_def Let_def min_def)

lemma lastIndexOf_bounds: "- 1 \<le> lastIndexOf xs c \<and> lastIndexOf xs c < int (length xs)"
  by (induction xs) (auto simp: Let_def)

lemma lastIndexOf_nth: "0 \<le> lastIndexOf xs c \<Longrightarrow> xs ! nat (lastIndexOf xs c) = c"
proof (induction xs)
  case Nil
  then show ?case by simp
next
  case (Cons x xs)
  show ?case
  proof (cases "0 \<le> lastIndexOf xs c")
    case True
    then have "nat (lastIndexOf xs c + 1) = Suc (nat (lastIndexOf xs c))" by simp
    with True Cons.IH show ?thesis by (simp add: Let_def)
  next
    case False
    with Cons.prems show ?thesis by (simp add: Let_def split: if_splits)
  qed
qed

lemma lastIndexOf_ge: "j < length xs \<Longrightarrow> xs ! j = c \<Longrightarrow> int j \<le> lastIndexOf xs c"
proof (induction xs arbitrary: j)
  case Nil
  then show ?case by simp
next
  case (Cons x xs)
  show ?case
  proof (cases j)
    case 0
    with Cons.prems lastIndexOf_bounds [of xs c] show ?thesis by (simp add: Let_def)
  next
    case (Suc k)
    with Cons.prems have "int k \<le> lastIndexOf xs c" by (intro Cons.IH) simp_all
    with Suc show ?thesis by (simp add: Let_def)
  qed
qed

lemma half_less_iff: "(real_of_int c * 0.5 < real_of_int b) = (c < 2 * b)"
proof -
  have "(real_of_int c * 0.5 < real_of_int b) = (real_of_int c < real_of_int (2 * b))"
    by (simp add: mult.commute)
  also have "\<dots> = (c < 2 * b)" by (rule of_int_less_iff)
  finally show ?thesis .
qed

lemma split_iteration_cases:
  assumes "0 < ov" "ov < cs" "0 \<le> start" "start < int (length text)"
  obtains
    (final) "int (length text) \<le> start + cs"
      "split_iteration text cs ov start = (drop (nat start) text, int (length text))"
  | (boundary) bp where "start + cs < int (length text)" "cs < 2 * bp" "bp < cs"
      "text ! nat (start + bp) = 46 \<or> text ! nat (start + bp) = 10"
      "split_iteration text cs ov start =
         (take (nat (bp + 1)) (drop (nat start) text), start + (bp + 1))"
  | (overlap) "start + cs < int (length text)"
      "\<forall>j. cs < 2 * j \<and> j < cs \<longrightarrow>
           text ! nat (start + j) \<noteq> 46 \<and> text ! nat (start + j) \<noteq> 10"
      "split_iteration text cs ov start = (take (nat cs) (drop (nat start) text), start + cs - ov)"
proof (cases "start + cs < int (length text)")
  case False
  then have e: "min (start + cs) (int (length text)) = int (length text)" by simp
  have "js_slice text start (int (length text)) = drop (nat start) text"
    using assms(3,4) by (simp add: js_slice_inside)
  then have "split_iteration text cs ov start = (drop (nat start) text, int (length text))"
    by (simp add: split_iteration_def e Let_def)
  with False final show ?thesis by simp
next
  case True
  define chunk where "chunk = take (nat cs) (drop (nat start) text)"
  define bp where "bp = max (lastIndexOf chunk 46) (lastIndexOf chunk 10)"
  have e: "min (start + cs) (int (length text)) = start + cs" using True by simp
  have sl: "js_slice text start (start + cs) = chunk"
    using assms True by (simp add: js_slice_inside chunk_def)
  have len: "int (length chunk) = cs" using assms True by (simp add: chunk_def)
  have nth: "chunk ! j = text ! (nat start + j)" if "int j < cs" for j
    using that assms True by (simp add: chunk_def)
  have it: "split_iteration text cs ov start =
              (if cs < 2 * bp then (js_slice chunk 0 (bp + 1), start + (bp + 1))
               else (chunk, start + cs - ov))"
    using True by (simp add: split_iteration_def e sl Let_def bp_def half_less_iff)
  have bp_lt: "bp < cs"
    using lastIndexOf_bounds [of chunk 46] lastIndexOf_bounds [of chunk 10] len
    by (simp add: bp_def)
  show ?thesis
  proof (cases "cs < 2 * bp")
    case big: True
    then have pos: "0 \<le> bp" using assms by simp
    have "chunk ! nat bp = 46 \<or> chunk ! nat bp = 10"
    proof (cases "lastIndexOf chunk 10 \<le> lastIndexOf chunk 46")
      case True
      then have "bp = lastIndexOf chunk 46" by (simp add: bp_def)
      with pos lastIndexOf_nth [of chunk 46] show ?thesis by simp
    next
      case False
      then have "bp = lastIndexOf chunk 10" by (simp add: bp_def)
      with pos lastIndexOf_nth [of chunk 10] show ?thesis by simp
    qed
    moreover have "chunk ! nat bp = text ! (nat start + nat bp)"
      using nth [of "nat bp"] pos bp_lt by simp
    moreover have "nat start + nat bp = nat (start + bp)" using pos assms(3) by simp
    ultimately have sep: "text ! nat (start + bp) = 46 \<or> text ! nat (start + bp) = 10"
      by simp
    have "js_slice chunk 0 (bp + 1) = take (nat (bp + 1)) chunk"
      using pos bp_lt len by (simp add: js_slice_inside)
    also have "\<dots> = take (nat (bp + 1)) (drop (nat start) text)"
      using bp_lt by (simp add: chunk_def min_def)
    finally have "split_iteration text cs ov start =
         (take (nat (bp + 1)) (drop (nat start) text), start + (bp + 1))"
      using it big by simp
    with True big bp_lt sep boundary show ?thesis by blast
  next
    case small: False
    have "text ! nat (start + j) \<noteq> 46 \<and> text ! nat (start + j) \<noteq> 10"
      if j: "cs < 2 * j" "j < cs" for j
    proof -
      have j0: "0 \<le> j" using j assms by simp
      have eq: "chunk ! nat j = text ! nat (start + j)"
        using nth [of "nat j"] j j0 assms(3) by (simp add: nat_add_distrib)
      have inb: "nat j < length chunk" using j j0 len by simp
      {
        fix c :: code_unit
        assume "c = 46 \<or> c = 10" and "chunk ! nat j = c"
        from lastIndexOf_ge [OF inb this(2)] have "j \<le> lastIndexOf chunk c" using j0 by simp
        with \<open>c = 46 \<or> c = 10\<close> have "j \<le> bp" by (auto simp: bp_def)
        with j small have False by simp
      }
      then show ?thesis using eq by metis
    qed
    then have "\<forall>j. cs < 2 * j \<and> j < cs \<longrightarrow>
           text ! nat (start + j) \<noteq> 46 \<and> text ! nat (start + j) \<noteq> 10"
      by blast
    moreover have "split_iteration text cs ov start = (chunk, start + cs - ov)"
      using it small by simp
    ultimately show ?thesis using True overlap unfolding chunk_def by blast
  qed
qed

lemma split_iteration_progress:
  assumes "0 < ov" "ov < cs" "0 \<le> start" "start < int (length text)"
  shows "start < snd (split_iteration text cs ov start) \<and>
         snd (split_iteration text cs ov start) \<le> int (length text) \<and>
         (snd (split_iteration text cs ov start) = int (length text) \<or>
          snd (split_iteration text cs ov start) = start + (cs - ov) \<or>
          (cs < 2 * (snd (split_iteration text cs ov start) - start) \<and>
           snd (split_iteration text cs ov start) - start \<le> cs))"
  using assms
proof (cases rule: split_iteration_cases)
  case final
  with assms show ?thesis by simp
next
  case (boundary bp)
  with assms show ?thesis by simp
next
  case overlap
  with assms show ?thesis by simp
qed

lemma split_loop_returns:
  assumes "0 < ov" "ov < cs"
  shows "0 \<le> start \<Longrightarrow> \<exists>result. split_loop text cs ov start chunks = Some result"
proof (induction "nat (int (length text) - start)" arbitrary: start chunks rule: less_induct)
  case less
  show ?case
  proof (cases "start < int (length text)")
    case False
    then show ?thesis by (subst split_loop.simps) simp
  next
    case True
    let ?next = "snd (split_iteration text cs ov start)"
    from split_iteration_progress [OF assms less.prems True]
    have adv: "start < ?next" by blast
    then have "nat (int (length text) - ?next) < nat (int (length text) - start)"
      using True by simp
    moreover have "0 \<le> ?next" using adv less.prems by simp
    ultimately have "\<exists>result. split_loop text cs ov ?next
        (push_trimmed chunks (fst (split_iteration text cs ov start))) = Some result"
      by (rule less.hyps)
    then show ?thesis using True by (subst split_loop.simps) simp
  qed
qed

text \<open>
  C4. With \<open>0 < overlap < chunkSize\<close> the loop of \<open>splitTextIntoChunks\<close> ends and the
  function returns. Every pass from a cursor inside the text moves the cursor strictly
  forward and not past the end: to the end of the text on the final slice, by
  \<open>chunkSize - overlap\<close> when the full slice is kept, and by \<open>breakPoint + 1\<close>, which is more
  than half of \<open>chunkSize\<close> and at most \<open>chunkSize\<close>, when the slice is cut at a sentence
  boundary.
\<close>

theorem splitTextIntoChunks_terminates:
  assumes "0 < overlap" "overlap < chunkSize"
  shows "(\<exists>chunks. splitTextIntoChunks text chunkSize overlap = Some chunks) \<and>
         (\<forall>start. 0 \<le> start \<and> start < int (length text) \<longrightarrow>
            start < snd (split_iteration text chunkSize overlap start) \<and>
            snd (split_iteration text chunkSize overlap start) \<le> int (length text) \<and>
            (snd (split_iteration text chunkSize overlap start) = int (length text) \<or>
             snd (split_iteration text chunkSize overlap start) = start + (chunkSize - overlap) \<or>
             (chunkSize < 2 * (snd (split_iteration text chunkSize overlap start) - start) \<and>
              snd (split_iteration text chunkSize overlap start) - start \<le> chunkSize)))"
proof
  show "\<exists>chunks. splitTextIntoChunks text chunkSize overlap = Some chunks"
    unfolding splitTextIntoChunks_def by (rule split_loop_returns [OF assms]) simp
next
  show "\<forall>start. 0 \<le> start \<and> start < int (length text) \<longrightarrow>
            start < snd (split_iteration text chunkSize overlap start) \<and>
            snd (split_iteration text chunkSize overlap start) \<le> int (length text) \<and>
            (snd (split_iteration text chunkSize overlap start) = int (length text) \<or>
             snd (split_iteration text chunkSize overlap start) = start + (chunkSize - overlap) \<or>
             (chunkSize < 2 * (snd (split_iteration text chunkSize overlap start) - start) \<and>
              snd (split_iteration text chunkSize overlap start) - start \<le> chunkSize))"
    using split_iteration_progress [OF assms] by blast
qed

lemma split_loop_trace:
  shows "0 < ov \<Longrightarrow> ov < cs \<Longrightarrow> 0 \<le> start \<Longrightarrow>
         split_loop doc cs ov start chunks = Some (chunks @ pushed (split_trace doc cs ov start skip))"
proof (induction doc cs ov start skip arbitrary: chunks rule: split_trace.induct)
  case (1 doc cs ov start skip)
  show ?case
  proof (cases "start < int (length doc)")
    case False
    then show ?thesis
      by (subst split_loop.simps, subst split_trace.simps) (simp add: pushed_def)
  next
    case True
    let ?it = "split_iteration doc cs ov start"
    from split_iteration_progress [OF "1.prems" True]
    have adv: "start < snd ?it" by blast
    then have next0: "0 \<le> snd ?it" using "1.prems"(3) by simp
    have "split_loop doc cs ov (snd ?it) (push_trimmed chunks (fst ?it)) =
            Some (push_trimmed chunks (fst ?it) @
                  pushed (split_trace doc cs ov (snd ?it)
                            (nat (start + int (length (fst ?it)) - snd ?it))))"
      using True adv next0 "1.prems"(1,2) by (intro "1.IH") simp_all
    moreover have "split_trace doc cs ov start skip =
            (fst ?it, skip) # split_trace doc cs ov (snd ?it)
                                (nat (start + int (length (fst ?it)) - snd ?it))"
      using True adv by (subst split_trace.simps) simp
    moreover have "split_loop doc cs ov start chunks =
            split_loop doc cs ov (snd ?it) (push_trimmed chunks (fst ?it))"
      using True by (subst split_loop.simps) simp
    ultimately show ?thesis
      by (simp add: pushed_def push_trimmed_def)
  qed
qed

lemma drop_take_drop: "k \<le> n \<Longrightarrow> drop k (take n ys) @ drop n ys = drop k ys"
proof -
  assume "k \<le> n"
  have "drop k ys = drop k (take n ys @ drop n ys)" by simp
  also have "\<dots> = drop k (take n ys) @ drop (k - length (take n ys)) (drop n ys)"
    by (rule drop_append)
  also have "drop (k - length (take n ys)) (drop n ys) = drop n ys"
  proof (cases "n \<le> length ys")
    case True
    with \<open>k \<le> n\<close> show ?thesis by simp
  next
    case False
    then show ?thesis by simp
  qed
  finally show ?thesis by simp
qed

lemma split_step:
  assumes "0 < ov" "ov < cs" "0 \<le> start" "start < int (length doc)"
    and inv: "after_overlap doc cs ov start skip"
  obtains n "next" skip' where
    "split_iteration doc cs ov start = (take n (drop (nat start) doc), next)"
    "nat start + n \<le> length doc" "skip < n" "start < next" "next \<le> int (length doc)"
    "nat next + skip' = nat start + n" "skip' = nat (start + int n - next)"
    "after_overlap doc cs ov next skip'"
  using assms(1-4)
proof (cases rule: split_iteration_cases)
  case final
  let ?n = "nat (int (length doc) - start)"
  have "split_iteration doc cs ov start = (take ?n (drop (nat start) doc), int (length doc))"
    using final(2) assms(3,4) by simp
  moreover have "nat start + ?n \<le> length doc" using assms(3,4) by simp
  moreover have "skip < ?n"
    using inv assms(1,3,4) unfolding after_overlap_def by auto
  moreover have "nat (int (length doc)) + 0 = nat start + ?n" using assms(3,4) by simp
  moreover have "(0::nat) = nat (start + int ?n - int (length doc))" using assms(3,4) by simp
  moreover have "after_overlap doc cs ov (int (length doc)) 0" by (simp add: after_overlap_def)
  ultimately show ?thesis using that assms(4) by blast
next
  case (boundary bp)
  let ?n = "nat (bp + 1)"
  have bp0: "0 \<le> bp" using boundary(2) assms(1,2) by simp
  have "skip \<le> nat bp"
  proof (cases "skip = 0")
    case True
    then show ?thesis by simp
  next
    case False
    with inv have sk: "int skip = ov" and low: "cs \<le> start + ov"
      and clean: "\<forall>j. cs < 2 * j \<and> j < cs \<longrightarrow>
           doc ! nat (start + ov - cs + j) \<noteq> 46 \<and> doc ! nat (start + ov - cs + j) \<noteq> 10"
      unfolding after_overlap_def by auto
    have "ov \<le> bp"
    proof (rule ccontr)
      assume "\<not> ov \<le> bp"
      then have "cs < 2 * (bp + cs - ov) \<and> bp + cs - ov < cs"
        using boundary(2) assms(2) by simp
      with clean have "doc ! nat (start + ov - cs + (bp + cs - ov)) \<noteq> 46 \<and>
                       doc ! nat (start + ov - cs + (bp + cs - ov)) \<noteq> 10"
        by blast
      moreover have "start + ov - cs + (bp + cs - ov) = start + bp" by simp
      ultimately show False using boundary(4) by simp
    qed
    with sk show ?thesis by simp
  qed
  then have "skip < ?n" using bp0 by simp
  moreover have "split_iteration doc cs ov start = (take ?n (drop (nat start) doc), start + (bp + 1))"
    by (rule boundary(5))
  moreover have "nat start + ?n \<le> length doc" using boundary(1,3) bp0 assms(3) by simp
  moreover have "start < start + (bp + 1)" "start + (bp + 1) \<le> int (length doc)"
    using boundary(1,3) bp0 by simp_all
  moreover have "nat (start + (bp + 1)) + 0 = nat start + ?n" using bp0 assms(3) by simp
  moreover have "(0::nat) = nat (start + int ?n - (start + (bp + 1)))" using bp0 by simp
  moreover have "after_overlap doc cs ov (start + (bp + 1)) 0" by (simp add: after_overlap_def)
  ultimately show ?thesis using that by blast
next
  case overlap
  let ?n = "nat cs"
  have "skip < ?n"
    using inv assms(1,2) unfolding after_overlap_def by auto
  moreover have "split_iteration doc cs ov start = (take ?n (drop (nat start) doc), start + cs - ov)"
    by (rule overlap(3))
  moreover have "nat start + ?n \<le> length doc" using overlap(1) assms(1,2,3) by simp
  moreover have "start < start + cs - ov" "start + cs - ov \<le> int (length doc)"
    using overlap(1) assms(1,2) by simp_all
  moreover have "nat (start + cs - ov) + nat ov = nat start + ?n" using assms(1,2,3) by simp
  moreover have "nat ov = nat (start + int ?n - (start + cs - ov))" using assms(1,2) by simp
  moreover have "after_overlap doc cs ov (start + cs - ov) (nat ov)"
    using overlap(1,2) assms(1,2,3) by (simp add: after_overlap_def)
  ultimately show ?thesis using that by blast
qed

lemma stitched_trace:
  "0 < ov \<Longrightarrow> ov < cs \<Longrightarrow> 0 \<le> start \<Longrightarrow> start \<le> int (length doc) \<Longrightarrow>
   after_overlap doc cs ov start skip \<Longrightarrow>
   stitched (split_trace doc cs ov start skip) = drop (nat start + skip) doc \<and>
   (\<forall>(chunk, k)\<in>set (split_trace doc cs ov start skip). (k = 0 \<or> int k = ov) \<and> k < length chunk)"
proof (induction doc cs ov start skip rule: split_trace.induct)
  case (1 doc cs ov start skip)
  show ?case
  proof (cases "start < int (length doc)")
    case False
    with "1.prems"(4) have "split_trace doc cs ov start skip = []" "nat start = length doc"
      by (simp_all add: split_trace.simps)
    then show ?thesis by (simp add: stitched_def)
  next
    case True
    from "1.prems"(1,2,3) True "1.prems"(5) obtain n nxt skip' where
      it: "split_iteration doc cs ov start = (take n (drop (nat start) doc), nxt)"
      and fits: "nat start + n \<le> length doc" and sk: "skip < n"
      and adv: "start < nxt" and bound: "nxt \<le> int (length doc)"
      and cover: "nat nxt + skip' = nat start + n"
      and skip': "skip' = nat (start + int n - nxt)"
      and inv': "after_overlap doc cs ov nxt skip'"
      by (rule split_step)
    have len: "length (take n (drop (nat start) doc)) = n" using fits by simp
    have minn: "min (length doc - nat start) n = n" using fits by simp
    have unfold: "split_trace doc cs ov start skip =
        (take n (drop (nat start) doc), skip) # split_trace doc cs ov nxt skip'"
      using True adv by (subst split_trace.simps) (simp add: it minn skip')
    have "stitched (split_trace doc cs ov nxt skip') = drop (nat nxt + skip') doc \<and>
          (\<forall>(chunk, k)\<in>set (split_trace doc cs ov nxt skip'). (k = 0 \<or> int k = ov) \<and> k < length chunk)"
    proof -
      have c: "start < int (length doc) \<and> start < snd (split_iteration doc cs ov start)"
        using True adv by (simp add: it)
      have "0 \<le> snd (split_iteration doc cs ov start)"
        "snd (split_iteration doc cs ov start) \<le> int (length doc)"
        "after_overlap doc cs ov (snd (split_iteration doc cs ov start))
           (nat (start + int (length (fst (split_iteration doc cs ov start)))
                 - snd (split_iteration doc cs ov start)))"
        using adv bound inv' "1.prems"(3) by (simp_all add: it minn skip')
      from "1.IH" [OF c "1.prems"(1,2) this] show ?thesis by (simp add: it minn skip')
    qed
    note ih = this
    from ih have entries: "\<forall>(chunk, k)\<in>set (split_trace doc cs ov nxt skip').
                      (k = 0 \<or> int k = ov) \<and> k < length chunk"
      by (rule conjunct2)
    from ih have "stitched (split_trace doc cs ov nxt skip') = drop (nat nxt + skip') doc"
      by (rule conjunct1)
    then have "stitched (split_trace doc cs ov nxt skip') = drop (nat start + n) doc"
      by (simp only: cover)
    then have rest: "stitched (split_trace doc cs ov nxt skip') = drop n (drop (nat start) doc)"
      by (simp add: add.commute)
    have "stitched (split_trace doc cs ov start skip) =
            drop skip (take n (drop (nat start) doc)) @ drop n (drop (nat start) doc)"
      by (simp add: unfold stitched_def rest [unfolded stitched_def])
    also have "\<dots> = drop skip (drop (nat start) doc)"
      using sk by (intro drop_take_drop) simp
    also have "\<dots> = drop (nat start + skip) doc" by (simp add: add.commute)
    finally have "stitched (split_trace doc cs ov start skip) = drop (nat start + skip) doc" .
    moreover have "skip = 0 \<or> int skip = ov"
      using "1.prems"(5) unfolding after_overlap_def by blast
    ultimately show ?thesis using entries sk by (simp add: unfold minn)
  qed
qed

lemma js_trim_decompose:
  "\<exists>before after. s = before @ js_trim s @ after \<and>
     list_all is_js_whitespace before \<and> list_all is_js_whitespace after"
proof -
  let ?d = "dropWhile is_js_whitespace s"
  let ?before = "takeWhile is_js_whitespace s"
  let ?after = "rev (takeWhile is_js_whitespace (rev ?d))"
  have "js_trim s @ ?after =
          rev (takeWhile is_js_whitespace (rev ?d) @ dropWhile is_js_whitespace (rev ?d))"
    by (simp only: js_trim_def rev_append)
  also have "\<dots> = rev (rev ?d)" by (simp only: takeWhile_dropWhile_id)
  also have "\<dots> = ?d" by (rule rev_rev_ident)
  finally have "?d = js_trim s @ ?after" by (rule sym)
  moreover have "s = ?before @ ?d" by simp
  ultimately have "s = ?before @ js_trim s @ ?after" by simp
  moreover have "list_all is_js_whitespace ?before"
    by (simp add: list_all_iff) (meson set_takeWhileD)
  moreover have "list_all is_js_whitespace ?after"
    by (simp add: list_all_iff) (meson set_takeWhileD)
  ultimately show ?thesis by blast
qed

text \<open>
  C3. With \<open>0 < overlap < chunkSize\<close>, the chunks returned are the slices of the trace,
  each trimmed, those that are empty after trimming left out; the slices, each without
  the leading part it repeats from the slice before it, concatenate to the text itself;
  the repeated part of a slice is nothing or exactly \<open>overlap\<close> code units, and is
  shorter than the slice; and a slice is its trimmed chunk between two runs of white
  space. So no code unit of the text is lost, none is repeated beyond the declared
  overlap, and chunks differ from slices of the text only by the white space trimmed at
  their two ends.
\<close>

theorem chunks_cover_text:
  assumes "0 < overlap" "overlap < chunkSize"
  shows "splitTextIntoChunks text chunkSize overlap =
           Some (pushed (split_trace text chunkSize overlap 0 0)) \<and>
         stitched (split_trace text chunkSize overlap 0 0) = text \<and>
         (\<forall>(chunk, skip)\<in>set (split_trace text chunkSize overlap 0 0).
            (skip = 0 \<or> int skip = overlap) \<and> skip < length chunk \<and>
            (\<exists>before after. chunk = before @ js_trim chunk @ after \<and>
               list_all is_js_whitespace before \<and> list_all is_js_whitespace after))"
proof -
  have "after_overlap text chunkSize overlap 0 0" by (simp add: after_overlap_def)
  with stitched_trace [OF assms, of 0 "text" 0]
  have st: "stitched (split_trace text chunkSize overlap 0 0) = text"
    and en: "\<forall>(chunk, skip)\<in>set (split_trace text chunkSize overlap 0 0).
            (skip = 0 \<or> int skip = overlap) \<and> skip < length chunk"
    by simp_all
  have "\<forall>(chunk, skip)\<in>set (split_trace text chunkSize overlap 0 0).
            (skip = 0 \<or> int skip = overlap) \<and> skip < length chunk \<and>
            (\<exists>before after. chunk = before @ js_trim chunk @ after \<and>
               list_all is_js_whitespace before \<and> list_all is_js_whitespace after)"
  proof
    fix entry assume "entry \<in> set (split_trace text chunkSize overlap 0 0)"
    with en have "case entry of (chunk, skip) \<Rightarrow>
                    (skip = 0 \<or> int skip = overlap) \<and> skip < length chunk"
      by (rule bspec)
    then show "case entry of (chunk, skip) \<Rightarrow>
            (skip = 0 \<or> int skip = overlap) \<and> skip < length chunk \<and>
            (\<exists>before after. chunk = before @ js_trim chunk @ after \<and>
               list_all is_js_whitespace before \<and> list_all is_js_whitespace after)"
      using js_trim_decompose [of "fst entry"] by (cases entry) simp
  qed
  moreover have "splitTextIntoChunks text chunkSize overlap =
           Some (pushed (split_trace text chunkSize overlap 0 0))"
    using split_loop_trace [OF assms, of 0 "text" "[]" 0] by (simp add: splitTextIntoChunks_def)
  ultimately show ?thesis using st by blast
qed

lemma sample_text_units:
  "sample_text = [79, 110, 101, 32, 116, 119, 111, 46, 32, 84, 104, 114, 101, 101, 32, 102, 111,
                  117, 114, 46, 32, 32, 83, 105, 120]"
  by (simp add: sample_text_def js_def)

lemma sample_iterations:
  "split_iteration sample_text 10 3 0 = (js ''One two.'', 8)"
  "split_iteration sample_text 10 3 8 = (js '' Three fou'', 15)"
  "split_iteration sample_text 10 3 15 = (js ''four.  Six'', 25)"
  by (simp_all add: sample_text_units split_iteration_def js_slice_def Let_def js_def)

lemma sample_trace:
  "split_trace sample_text 10 3 0 0 =
     [(js ''One two.'', 0), (js '' Three fou'', 0), (js ''four.  Six'', 3)]"
proof -
  have len: "int (length sample_text) = 25" by (simp add: sample_text_units)
  have l1: "length (js ''One two.'') = 8" and l2: "length (js '' Three fou'') = 10"
    and l3: "length (js ''four.  Six'') = 10"
    by (simp_all add: js_def)
  have "split_trace sample_text 10 3 25 0 = []"
    by (subst split_trace.simps) (simp add: len)
  then have "split_trace sample_text 10 3 15 3 = [(js ''four.  Six'', 3)]"
    by (subst split_trace.simps) (simp add: len sample_iterations l3)
  then have "split_trace sample_text 10 3 8 0 = [(js '' Three fou'', 0), (js ''four.  Six'', 3)]"
    by (subst split_trace.simps) (simp add: len sample_iterations l2)
  then show ?thesis
    by (subst split_trace.simps) (simp add: len sample_iterations l1)
qed

lemma sample_pushed:
  "pushed [(js ''One two.'', 0), (js '' Three fou'', 0), (js ''four.  Six'', 3)] =
     [js ''One two.'', js ''Three fou'', js ''four.  Six'']"
  by (simp add: pushed_def js_trim_def js_def is_js_whitespace_def)

lemma sample_stitched:
  "stitched [(js ''One two.'', 0), (js '' Three fou'', 0), (js ''four.  Six'', 3)] = sample_text"
  by (simp add: stitched_def sample_text_def js_def)

theorem chunks_cover_text_witness:
  "(0::int) < 3 \<and> (3::int) < 10 \<and>
   splitTextIntoChunks sample_text 10 3 =
     Some [js ''One two.'', js ''Three fou'', js ''four.  Six''] \<and>
   stitched [(js ''One two.'', 0), (js '' Three fou'', 0), (js ''four.  Six'', 3)] = sample_text"
  using chunks_cover_text [of 3 10 sample_text]
  by (simp add: sample_trace sample_pushed)

theorem splitTextIntoChunks_terminates_witness:
  "(0::int) < 3 \<and> (3::int) < 10 \<and>
   (\<exists>chunks. splitTextIntoChunks sample_text 10 3 = Some chunks) \<and>
   (0::int) < snd (split_iteration sample_text 10 3 0) \<and>
   (8::int) < snd (split_iteration sample_text 10 3 8) \<and>
   (15::int) < snd (split_iteration sample_text 10 3 15)"
proof -
  have "int (length sample_text) = 25" by (simp add: sample_text_units)
  with splitTextIntoChunks_terminates [of 3 10 sample_text]
  show ?thesis by simp
qed

end
